theory Spec2Isabelle
  imports Main
begin

section \<open>Tokens\<close>

text \<open>
  The twelve members of \<open>TokenType\<close> are pairwise different strings of the source;
  the code only compares them with \<open>===\<close>, so they are modelled as an enumeration.
  \<open>Int'\<close> is \<open>TokenType.Int\<close>.
\<close>

datatype TokenItem =
    Illegal | Eof | Ident | Print | ParentesesE | ParentesesD | EoL
  | SingleQuote | DoubleQuote | Variable | AssignOrEqual | Int'

text \<open>
  A token of the source is an object \<open>{ type, literal }\<close>.  The tokenizer can also put
  a value into a line that is no such object: \<open>Keywords\<close> is a plain object literal, so
  \<open>Keywords[ident]\<close> finds, besides its own two entries, every member it inherits from
  \<open>Object.prototype\<close>.  Such a member is a function or an object, hence truthy, and has
  neither a \<open>type\<close> nor a \<open>literal\<close> property: reading them yields \<open>undefined\<close>,
  written \<open>None\<close> here.
\<close>

datatype Token = Token TokenItem string | Inherited string

fun tok_type :: "Token \<Rightarrow> TokenItem option" where
  "tok_type (Token ty lit) = Some ty"
| "tok_type (Inherited name) = None"

fun literal :: "Token \<Rightarrow> string option" where
  "literal (Token ty lit) = Some lit"
| "literal (Inherited name) = None"

definition createToken :: "TokenItem \<Rightarrow> string \<Rightarrow> Token" where
  "createToken ty lit = Token ty lit"

section \<open>Character classes\<close>

text \<open>
  A JavaScript string is a sequence of UTF-16 code units.  The tokenizer compares a unit
  only with ASCII characters, and every unit it does not know takes the same branch, so
  the units are modelled by \<open>char\<close>.
\<close>

definition charCodeAt :: "char \<Rightarrow> nat" where
  "charCodeAt c = of_char c"

definition NUL :: char where
  "NUL = CHR 0x00"

definition isLetter :: "char \<Rightarrow> bool" where
  "isLetter character =
     (let char = charCodeAt character in
        charCodeAt CHR ''a'' \<le> char \<and> charCodeAt CHR ''z'' \<ge> char
      \<or> charCodeAt CHR ''A'' \<le> char \<and> charCodeAt CHR ''Z'' \<ge> char
      \<or> char = charCodeAt CHR ''_'')"

definition isNumber :: "char \<Rightarrow> bool" where
  "isNumber character =
     (let char = charCodeAt character in
        charCodeAt CHR ''0'' \<le> char \<and> charCodeAt CHR ''9'' \<ge> char)"

definition isWhitespace :: "char \<Rightarrow> bool" where
  "isWhitespace c =
     (c = CHR '' '' \<or> c = CHR 0x09 \<or> c = CHR 0x0A \<or> c = CHR 0x0D)"

text \<open>
  The names made of letters and underscores only that a plain object inherits from
  \<open>Object.prototype\<close>.
\<close>

definition object_prototype_members :: "string list" where
  "object_prototype_members =
     [''constructor'', ''hasOwnProperty'', ''isPrototypeOf'', ''propertyIsEnumerable'',
      ''toLocaleString'', ''toString'', ''valueOf'', ''__proto__'',
      ''__defineGetter__'', ''__defineSetter__'', ''__lookupGetter__'', ''__lookupSetter__'']"

definition Keywords :: "string \<Rightarrow> Token option" where
  "Keywords ident =
     (if ident = ''print'' then Some (createToken Print ''print'')
      else if ident = ''var'' then Some (createToken Variable ''var'')
      else if ident \<in> set object_prototype_members then Some (Inherited ident)
      else None)"

section \<open>Decimal numerals\<close>

definition digit_char :: "nat \<Rightarrow> char" where
  "digit_char d = ''0123456789'' ! d"

fun decimal :: "nat \<Rightarrow> string" where
  "decimal n = (if n < 10 then [digit_char n] else decimal (n div 10) @ [digit_char (n mod 10)])"

declare decimal.simps [simp del]

text \<open>
  A value interpolated into a template literal; \<open>None\<close> is \<open>undefined\<close>.
\<close>

fun template :: "string option \<Rightarrow> string" where
  "template None = ''undefined''"
| "template (Some str) = str"

section \<open>The tokenizer\<close>

text \<open>
  What ends a run: the \<open>Error\<close> the constructor throws, with its message; the
  \<open>TypeError\<close> of reading a property of \<open>undefined\<close>, with the name of the property;
  and \<open>eval\<close> called on a text that is none of the command texts described below.
\<close>

datatype error = Error string | TypeError string | EvalOutsideModel

record Tokenizer =
  input :: string
  lastToken :: Token
  position :: nat
  readPosition :: nat
  ch :: char
  loc :: nat
  tokens :: "Token list"
  lines :: "Token list list"

definition readChar :: "Tokenizer \<Rightarrow> Tokenizer" where
  "readChar s =
     s\<lparr> ch := (if readPosition s \<ge> length (input s) then NUL
                else input s ! readPosition s),
        position := readPosition s,
        readPosition := readPosition s + 1 \<rparr>"

definition peek :: "Tokenizer \<Rightarrow> char" where
  "peek s = (if readPosition s \<ge> length (input s) then NUL else input s ! readPosition s)"

text \<open>\<open>String.prototype.slice\<close> for two indices that are not negative.\<close>

definition slice :: "string \<Rightarrow> nat \<Rightarrow> nat \<Rightarrow> string" where
  "slice str a b = take (b - a) (drop a str)"

text \<open>
  The three scanning loops read on while the current character is in a class.  None of
  the classes holds the end marker, which is what ends them at the end of the input; the
  measure counts the characters still to be read, and one more for a current character
  that is not the end marker.
\<close>

definition remaining :: "Tokenizer \<Rightarrow> nat" where
  "remaining s = 2 * (length (input s) + 1 - readPosition s) + (if ch s = NUL then 0 else 1)"

lemma remaining_readChar: "ch s \<noteq> NUL \<Longrightarrow> remaining (readChar s) < remaining s"
  by (auto simp: remaining_def readChar_def)

lemma isWhitespace_not_NUL: "isWhitespace c \<Longrightarrow> c \<noteq> NUL"
  by (auto simp: isWhitespace_def NUL_def)

lemma isLetter_not_NUL: "isLetter c \<Longrightarrow> c \<noteq> NUL"
  by (auto simp: isLetter_def NUL_def charCodeAt_def Let_def)

lemma isNumber_not_NUL: "isNumber c \<Longrightarrow> c \<noteq> NUL"
  by (auto simp: isNumber_def NUL_def charCodeAt_def Let_def)

function skipWhitespace :: "Tokenizer \<Rightarrow> Tokenizer" where
  "skipWhitespace s = (if isWhitespace (ch s) then skipWhitespace (readChar s) else s)"
  by pat_completeness auto
termination
  by (relation "measure remaining") (simp_all add: remaining_readChar isWhitespace_not_NUL)

declare skipWhitespace.simps [simp del]

function readIdent_loop :: "Tokenizer \<Rightarrow> Tokenizer" where
  "readIdent_loop s = (if isLetter (ch s) then readIdent_loop (readChar s) else s)"
  by pat_completeness auto
termination
  by (relation "measure remaining") (simp_all add: remaining_readChar isLetter_not_NUL)

declare readIdent_loop.simps [simp del]

definition readIdent :: "Tokenizer \<Rightarrow> string \<times> Tokenizer" where
  "readIdent s =
     (let pos = position s; s' = readIdent_loop s
      in (slice (input s') pos (position s'), s'))"

function readInt_loop :: "Tokenizer \<Rightarrow> Tokenizer" where
  "readInt_loop s = (if isNumber (ch s) then readInt_loop (readChar s) else s)"
  by pat_completeness auto
termination
  by (relation "measure remaining") (simp_all add: remaining_readChar isNumber_not_NUL)

declare readInt_loop.simps [simp del]

definition readInt :: "Tokenizer \<Rightarrow> string \<times> Tokenizer" where
  "readInt s =
     (let pos = position s; s' = readInt_loop s
      in (slice (input s') pos (position s'), s'))"

text \<open>The \<open>switch\<close> of \<open>getNextToken\<close>: the token of a single character, if any.\<close>

definition switch_token :: "char \<Rightarrow> Token option" where
  "switch_token c =
     (if c = CHR ''('' then Some (createToken ParentesesE [c])
      else if c = CHR '')'' then Some (createToken ParentesesD [c])
      else if c = CHR ''!'' then Some (createToken EoL ''!'')
      else if c = CHR 0x27 then Some (createToken SingleQuote [CHR 0x27])
      else if c = CHR 0x22 then Some (createToken DoubleQuote [CHR 0x22])
      else if c = CHR ''='' then Some (createToken AssignOrEqual ''='')
      else if c = NUL then Some (createToken Eof ''eof'')
      else None)"

definition getNextToken :: "Tokenizer \<Rightarrow> Token \<times> Tokenizer" where
  "getNextToken s0 =
     (let s = skipWhitespace s0;
          tok = switch_token (ch s)
      in if isLetter (ch s) then
           (case readIdent s of (ident, s') \<Rightarrow>
              (case Keywords ident of
                 Some keyword \<Rightarrow> (keyword, s'\<lparr>lastToken := keyword\<rparr>)
               | None \<Rightarrow>
                   (let t = createToken Ident ident in (t, s'\<lparr>lastToken := t\<rparr>))))
         else if isNumber (ch s) then
           (case readInt s of (digits, s') \<Rightarrow>
              (let t = (if tok_type (lastToken s') = Some SingleQuote
                           \<or> tok_type (lastToken s') = Some DoubleQuote
                        then createToken Ident digits
                        else createToken Int' digits)
               in (t, s'\<lparr>lastToken := t\<rparr>)))
         else (case tok of
                 None \<Rightarrow> (createToken Illegal [ch s], s)
               | Some t \<Rightarrow> (t, (readChar s)\<lparr>lastToken := t\<rparr>)))"

text \<open>
  Every token other than the end of input and the illegal one is read past at least one
  character that is not the end marker, so the driving loop of the constructor ends.
\<close>

lemma remaining_skipWhitespace: "remaining (skipWhitespace s) \<le> remaining s"
proof (induction s rule: skipWhitespace.induct)
  case (1 s)
  show ?case
  proof (cases "isWhitespace (ch s)")
    case True
    with 1 remaining_readChar [of s] show ?thesis
      by (simp add: skipWhitespace.simps [of s] isWhitespace_not_NUL less_imp_le order_trans)
  next
    case False
    then show ?thesis by (simp add: skipWhitespace.simps [of s])
  qed
qed

lemma remaining_readIdent_loop: "remaining (readIdent_loop s) \<le> remaining s"
proof (induction s rule: readIdent_loop.induct)
  case (1 s)
  show ?case
  proof (cases "isLetter (ch s)")
    case True
    with 1 remaining_readChar [of s] show ?thesis
      by (simp add: readIdent_loop.simps [of s] isLetter_not_NUL less_imp_le order_trans)
  next
    case False
    then show ?thesis by (simp add: readIdent_loop.simps [of s])
  qed
qed

lemma remaining_readInt_loop: "remaining (readInt_loop s) \<le> remaining s"
proof (induction s rule: readInt_loop.induct)
  case (1 s)
  show ?case
  proof (cases "isNumber (ch s)")
    case True
    with 1 remaining_readChar [of s] show ?thesis
      by (simp add: readInt_loop.simps [of s] isNumber_not_NUL less_imp_le order_trans)
  next
    case False
    then show ?thesis by (simp add: readInt_loop.simps [of s])
  qed
qed

lemma remaining_readIdent_less:
  assumes "isLetter (ch s)"
  shows "remaining (readIdent_loop s) < remaining s"
proof -
  have "readIdent_loop s = readIdent_loop (readChar s)"
    using assms by (simp add: readIdent_loop.simps [of s])
  moreover have "remaining (readIdent_loop (readChar s)) \<le> remaining (readChar s)"
    by (rule remaining_readIdent_loop)
  moreover have "remaining (readChar s) < remaining s"
    using assms by (simp add: remaining_readChar isLetter_not_NUL)
  ultimately show ?thesis by simp
qed

lemma remaining_readInt_less:
  assumes "isNumber (ch s)"
  shows "remaining (readInt_loop s) < remaining s"
proof -
  have "readInt_loop s = readInt_loop (readChar s)"
    using assms by (simp add: readInt_loop.simps [of s])
  moreover have "remaining (readInt_loop (readChar s)) \<le> remaining (readChar s)"
    by (rule remaining_readInt_loop)
  moreover have "remaining (readChar s) < remaining s"
    using assms by (simp add: remaining_readChar isNumber_not_NUL)
  ultimately show ?thesis by simp
qed

lemma remaining_lastToken [simp]: "remaining (s\<lparr>lastToken := t\<rparr>) = remaining s"
  by (simp add: remaining_def)

lemma remaining_tokens [simp]: "remaining (s\<lparr>tokens := ts\<rparr>) = remaining s"
  by (simp add: remaining_def)

lemma remaining_lines_loc [simp]: "remaining (s\<lparr>lines := ls, loc := n\<rparr>) = remaining s"
  by (simp add: remaining_def)

lemma switch_token_Eof: "switch_token c = Some t \<Longrightarrow> tok_type t \<noteq> Some Eof \<Longrightarrow> c \<noteq> NUL"
  by (auto simp: switch_token_def createToken_def NUL_def split: if_splits)

lemma getNextToken_letter:
  "isLetter (ch (skipWhitespace s)) \<Longrightarrow>
   getNextToken s =
     (let s' = readIdent_loop (skipWhitespace s);
          ident = slice (input s') (position (skipWhitespace s)) (position s');
          t = (case Keywords ident of Some keyword \<Rightarrow> keyword | None \<Rightarrow> createToken Ident ident)
      in (t, s'\<lparr>lastToken := t\<rparr>))"
  by (simp add: getNextToken_def readIdent_def Let_def split: option.splits)

lemma getNextToken_number:
  "\<not> isLetter (ch (skipWhitespace s)) \<Longrightarrow> isNumber (ch (skipWhitespace s)) \<Longrightarrow>
   getNextToken s =
     (let s' = readInt_loop (skipWhitespace s);
          digits = slice (input s') (position (skipWhitespace s)) (position s');
          t = (if tok_type (lastToken s') = Some SingleQuote
                  \<or> tok_type (lastToken s') = Some DoubleQuote
               then createToken Ident digits else createToken Int' digits)
      in (t, s'\<lparr>lastToken := t\<rparr>))"
  by (simp add: getNextToken_def readInt_def Let_def)

lemma getNextToken_single:
  "\<not> isLetter (ch (skipWhitespace s)) \<Longrightarrow> \<not> isNumber (ch (skipWhitespace s)) \<Longrightarrow>
   getNextToken s =
     (case switch_token (ch (skipWhitespace s)) of
        None \<Rightarrow> (createToken Illegal [ch (skipWhitespace s)], skipWhitespace s)
      | Some t \<Rightarrow> (t, (readChar (skipWhitespace s))\<lparr>lastToken := t\<rparr>))"
  by (simp add: getNextToken_def Let_def)

lemma remaining_getNextToken:
  assumes "getNextToken s = (tok, s')"
    and "tok_type tok \<noteq> Some Illegal" and "tok_type tok \<noteq> Some Eof"
  shows "remaining s' < remaining s"
proof -
  let ?w = "skipWhitespace s"
  have w: "remaining ?w \<le> remaining s" by (rule remaining_skipWhitespace)
  show ?thesis
  proof (cases "isLetter (ch ?w)")
    case True
    then have "remaining (readIdent_loop ?w) < remaining ?w"
      by (rule remaining_readIdent_less)
    moreover have "remaining s' = remaining (readIdent_loop ?w)"
      using assms(1) by (auto simp: getNextToken_letter [OF True] Let_def)
    ultimately show ?thesis using w by simp
  next
    case notLetter: False
    show ?thesis
    proof (cases "isNumber (ch ?w)")
      case True
      then have "remaining (readInt_loop ?w) < remaining ?w"
        by (rule remaining_readInt_less)
      moreover have "remaining s' = remaining (readInt_loop ?w)"
        using assms(1) by (auto simp: getNextToken_number [OF notLetter True] Let_def)
      ultimately show ?thesis using w by simp
    next
      case False
      show ?thesis
      proof (cases "switch_token (ch ?w)")
        case None
        with assms(1) have "tok_type tok = Some Illegal"
          by (auto simp: getNextToken_single [OF notLetter False] createToken_def)
        with assms(2) show ?thesis by simp
      next
        case (Some t)
        with assms(1) have s': "s' = (readChar ?w)\<lparr>lastToken := t\<rparr>" and tok: "tok = t"
          by (auto simp: getNextToken_single [OF notLetter False])
        from Some tok assms(3) have "ch ?w \<noteq> NUL" by (auto dest: switch_token_Eof)
        then have "remaining (readChar ?w) < remaining ?w" by (rule remaining_readChar)
        with s' w show ?thesis by simp
      qed
    qed
  qed
qed

text \<open>
  The loop of the constructor.  \<open>line\<close> is its local accumulator; the loop returns it
  beside the object so that what it held at the end of the input can be named.
\<close>

function lex :: "Tokenizer \<Rightarrow> Token list \<Rightarrow> error + (Tokenizer \<times> Token list)" where
  "lex s line =
     (case getNextToken s of (tok, s') \<Rightarrow>
        if tok_type tok = Some EoL then
          lex (s'\<lparr>lines := lines s' @ [line], loc := loc s' + 1\<rparr>) []
        else if tok_type tok = Some Illegal then
          Inl (Error (''Illegal token '' @ template (literal tok) @ '' at line '' @ decimal (loc s')))
        else if tok_type tok = Some Eof then
          Inr (s', line)
        else
          lex (s'\<lparr>tokens := tokens s' @ [tok]\<rparr>) (line @ [tok]))"
  by pat_completeness auto
termination
  proof (relation "measure (\<lambda>(s, line). remaining s)")
  show "wf (measure (\<lambda>(s, line). remaining s))" by simp
next
  fix s :: Tokenizer and line :: "Token list" and x y
  assume "(x, y) = getNextToken s" and "tok_type x = Some EoL"
  then have "remaining y < remaining s"
    using remaining_getNextToken [of s x y] by simp
  then show "((y\<lparr>lines := lines y @ [line], loc := loc y + 1\<rparr>, []), s, line)
      \<in> measure (\<lambda>(s, line). remaining s)"
    by simp
next
  fix s :: Tokenizer and line :: "Token list" and x y
  assume "(x, y) = getNextToken s" and "tok_type x \<noteq> Some Illegal" and "tok_type x \<noteq> Some Eof"
  then have "remaining y < remaining s"
    using remaining_getNextToken [of s x y] by simp
  then show "((y\<lparr>tokens := tokens y @ [x]\<rparr>, line @ [x]), s, line)
      \<in> measure (\<lambda>(s, line). remaining s)"
    by simp
qed

declare lex.simps [simp del]

text \<open>
  The object before the constructor body runs; \<open>ch\<close> is not initialised there, and
  \<open>readChar\<close> sets it before anything reads it.
\<close>

definition initial :: "string \<Rightarrow> Tokenizer" where
  "initial inp =
     \<lparr> input = inp, lastToken = createToken Illegal ''Illegal'', position = 0,
       readPosition = 0, ch = NUL, loc = 0, tokens = [], lines = [] \<rparr>"

definition constructor :: "string \<Rightarrow> error + (Tokenizer \<times> Token list)" where
  "constructor inp = lex (readChar (initial inp)) []"

definition new_Tokenizer :: "string \<Rightarrow> error + Tokenizer" where
  "new_Tokenizer inp = map_sum id fst (constructor inp)"

section \<open>The grammar shape table and its checker\<close>

definition treeObj :: "(string \<times> TokenItem list) list" where
  "treeObj =
     [(''print'',
       [Print, ParentesesE, SingleQuote, Ident, SingleQuote, ParentesesD, EoL])]"

definition treeMap :: "string \<Rightarrow> TokenItem list option" where
  "treeMap = map_of treeObj"

text \<open>Reading an array at an index: \<open>undefined\<close> past its end.\<close>

definition at_index :: "'a list \<Rightarrow> nat \<Rightarrow> 'a option" where
  "at_index xs i = (if i < length xs then Some (xs ! i) else None)"

text \<open>
  The loop of \<open>verifyTree\<close> over the indices of the line, from \<open>index\<close> on; \<open>rest\<close>
  holds the tokens of the line from that index.
\<close>

fun verifyTree_from :: "TokenItem list \<Rightarrow> nat \<Rightarrow> Token list \<Rightarrow> bool" where
  "verifyTree_from tree index [] = True"
| "verifyTree_from tree index (token # rest) =
     (if tok_type token \<noteq> at_index tree index then False
      else verifyTree_from tree (index + 1) rest)"

definition verifyTree :: "Token list \<Rightarrow> string \<Rightarrow> bool" where
  "verifyTree line statement =
     (case treeMap statement of
        Some tree \<Rightarrow> verifyTree_from tree 0 line
      | None \<Rightarrow> False)"

section \<open>The interpreter\<close>

datatype Declaration = VarVar | VarConst | ConstVar | ConstConst

datatype ValueType = StringType | NumberType

text \<open>
  \<open>IVariable\<close>, with its fields \<open>declaration\<close>, \<open>type\<close> and \<open>value\<close>; the field
  \<open>value\<close> has the type \<open>any\<close> and holds what \<open>literal\<close> of a token gave.  The table
  is a \<open>Map\<close>, whose keys are the same \<open>literal\<close> values.
\<close>

record IVariable =
  var_declaration :: Declaration
  var_type :: ValueType
  var_value :: "string option"

type_synonym variables = "string option \<Rightarrow> IVariable option"

text \<open>
  \<open>find\<close>: \<open>tok\<close> is the last token of the kind met so far, \<open>i\<close> counts the ones
  passed over.
\<close>

fun find_from :: "TokenItem \<Rightarrow> nat \<Rightarrow> nat \<Rightarrow> Token \<Rightarrow> Token list \<Rightarrow> Token" where
  "find_from token index i tok [] = tok"
| "find_from token index i tok (t # rest) =
     (if tok_type t = Some token then
        (if i = index then t else find_from token index (i + 1) t rest)
      else find_from token index i tok rest)"

definition find_token :: "TokenItem \<Rightarrow> Token list \<Rightarrow> nat \<Rightarrow> Token" where
  "find_token token line index =
     find_from token index 0 (createToken Illegal ''Illegal'') line"

fun hasVariable :: "variables \<Rightarrow> Token list \<Rightarrow> bool" where
  "hasVariable vars [] = False"
| "hasVariable vars (t # rest) =
     (if vars (literal t) \<noteq> None then True else hasVariable vars rest)"

subsection \<open>\<open>parseInt\<close> and the generated commands\<close>

text \<open>
  A number of the source is a double.  The numbers \<open>parseInt\<close> returns are \<open>NaN\<close>, the
  two infinities, the negative zero and the doubles whose value is an integer; \<open>Num n\<close>
  is the double of the value \<open>n\<close>, and only integers that are doubles are built
  (\<open>parseInt_representable\<close> below).
\<close>

datatype jsnum = NaN | NegativeZero | NegativeInfinity | PositiveInfinity | Num int

text \<open>The number of binary digits of a natural number.\<close>

fun bit_length :: "nat \<Rightarrow> nat" where
  "bit_length n = (if n = 0 then 0 else Suc (bit_length (n div 2)))"

declare bit_length.simps [simp del]

text \<open>
  The double of a natural number: the number itself when it has at most 53 binary
  digits; otherwise its first 53 digits, rounded to the nearest with ties to the even
  one, the digits cut off replaced by zeros.  A result of \<open>2 ^ 1024\<close> or more is
  infinite: \<open>None\<close>.
\<close>

definition to_double :: "nat \<Rightarrow> nat option" where
  "to_double n =
     (let e = bit_length n - 53;
          q = n div 2 ^ e;
          r = n mod 2 ^ e;
          q' = (if 2 ^ e < 2 * r \<or> (2 * r = 2 ^ e \<and> odd q) then q + 1 else q);
          m = q' * 2 ^ e
      in if 2 ^ 1024 \<le> m then None else Some m)"

definition isStrWhiteSpaceChar :: "char \<Rightarrow> bool" where
  "isStrWhiteSpaceChar c =
     (c = CHR 0x09 \<or> c = CHR 0x0A \<or> c = CHR 0x0B \<or> c = CHR 0x0C \<or> c = CHR 0x0D
      \<or> c = CHR 0x20 \<or> c = CHR 0xA0)"

definition digit_value :: "char \<Rightarrow> nat" where
  "digit_value c =
     (let char = charCodeAt c in
        if charCodeAt CHR ''0'' \<le> char \<and> char \<le> charCodeAt CHR ''9'' then char - charCodeAt CHR ''0''
        else if charCodeAt CHR ''a'' \<le> char \<and> char \<le> charCodeAt CHR ''z'' then char - charCodeAt CHR ''a'' + 10
        else if charCodeAt CHR ''A'' \<le> char \<and> char \<le> charCodeAt CHR ''Z'' then char - charCodeAt CHR ''A'' + 10
        else 36)"

definition digits_value :: "nat \<Rightarrow> string \<Rightarrow> nat" where
  "digits_value R Z = foldl (\<lambda>acc c. acc * R + digit_value c) 0 Z"

text \<open>
  \<open>parseInt(string)\<close> of the language, called without a radix: leading white space is
  dropped, then a sign, then a \<open>0x\<close> prefix that selects radix 16; the longest run of
  digits of the radix is read, and no digit at all gives \<open>NaN\<close>.  The result is the
  double of the integer the digits denote, with the sign; a zero keeps the sign.  Every
  digit is counted, as V8 does (in radix 10 the language lets an implementation take the
  digits after the 20th significant one for zeros).
\<close>

definition parseInt :: "string \<Rightarrow> jsnum" where
  "parseInt str =
     (let S0 = dropWhile isStrWhiteSpaceChar str;
          negative = (S0 \<noteq> [] \<and> hd S0 = CHR ''-'');
          S1 = (if S0 \<noteq> [] \<and> (hd S0 = CHR ''+'' \<or> hd S0 = CHR ''-'') then tl S0 else S0);
          hex = (take 2 S1 = ''0x'' \<or> take 2 S1 = ''0X'');
          R = (if hex then 16 else 10);
          S2 = (if hex then drop 2 S1 else S1);
          Z = takeWhile (\<lambda>c. digit_value c < R) S2
      in if Z = [] then NaN
         else (case to_double (digits_value R Z) of
                 None \<Rightarrow> (if negative then NegativeInfinity else PositiveInfinity)
               | Some m \<Rightarrow>
                   if negative then (if m = 0 then NegativeZero else Num (- int m))
                   else Num (int m)))"

text \<open>
  The two command texts the interpreter builds: \<open>console.log(${n})\<close> for a number
  \<open>n\<close>, and \<open>console.log('${str}')\<close>.
\<close>

datatype command = LogNumber jsnum | LogQuoted string

text \<open>What \<open>console.log\<close> is called with.\<close>

datatype logged = Str string | Number jsnum | Inspect "Token list list"

text \<open>
  The number that the text of a number in a template literal denotes: the number itself,
  but for the negative zero, whose text is \<open>0\<close>.
\<close>

definition as_written :: "jsnum \<Rightarrow> jsnum" where
  "as_written n = (if n = NegativeZero then Num 0 else n)"

text \<open>
  \<open>eval(commands.join())\<close>.  The joined text is the empty program or a comma
  expression of the commands, which runs them in turn.  The text of a number reads back
  as the number it denotes.  The text between the quotes reads back as a string literal
  of the same characters when it holds no quote, backslash or line break; the model does
  not say what \<open>eval\<close> does with any other text.
\<close>

definition quotable :: "string \<Rightarrow> bool" where
  "quotable str = (\<forall>c \<in> set str. c \<noteq> CHR 0x27 \<and> c \<noteq> CHR 0x5C \<and> c \<noteq> CHR 0x0A \<and> c \<noteq> CHR 0x0D)"

fun readable :: "command \<Rightarrow> bool" where
  "readable (LogNumber n) = True"
| "readable (LogQuoted str) = quotable str"

fun run_command :: "command \<Rightarrow> logged" where
  "run_command (LogNumber n) = Number (as_written n)"
| "run_command (LogQuoted str) = Str str"

definition eval_joined :: "command list \<Rightarrow> error + logged list" where
  "eval_joined commands =
     (if list_all readable commands then Inr (map run_command commands)
      else Inl EvalOutsideModel)"

subsection \<open>Statement dispatch\<close>

text \<open>
  The inner loop of \<open>interpreter\<close> over the tokens of one line; \<open>rest\<close> holds the
  tokens from the index \<open>inner\<close> on, \<open>line\<close> the whole line.  Reading a property of
  \<open>undefined\<close> throws a \<open>TypeError\<close>, which carries the name of the property here.
\<close>

fun scan :: "Token list \<Rightarrow> Token list \<Rightarrow> variables \<Rightarrow> command list
    \<Rightarrow> error + (variables \<times> command list)" where
  "scan line [] vars commands = Inr (vars, commands)"
| "scan line (atual # rest) vars commands =
     (if tok_type atual = Some Print then
        (if hasVariable vars line then
           (let vKey = literal (find_token Ident line 0) in
              case vars vKey of
                None \<Rightarrow> Inl (TypeError ''type'')
              | Some v \<Rightarrow>
                  if var_type v = NumberType then
                    Inr (vars, commands @ [LogNumber (parseInt (template (var_value v)))])
                  else
                    Inr (vars, commands @ [LogQuoted (template (var_value v))]))
         else
           Inr (vars, commands @ [LogQuoted (template (literal (find_token Ident line 0)))]))
      else if tok_type atual = Some Variable then
        (let single = find_token SingleQuote line 0;
             double = find_token DoubleQuote line 0
         in if tok_type single \<noteq> Some Illegal \<or> tok_type double \<noteq> Some Illegal then
              (case at_index line 1 of
                 None \<Rightarrow> Inl (TypeError ''literal'')
               | Some name \<Rightarrow>
                   scan line rest
                     (vars(literal name \<mapsto>
                        \<lparr> var_declaration = VarVar, var_type = StringType,
                          var_value = literal (find_token Ident line 1) \<rparr>))
                     commands)
            else
              (case at_index line 1 of
                 None \<Rightarrow> Inl (TypeError ''literal'')
               | Some name \<Rightarrow>
                   scan line rest
                     (vars(literal name \<mapsto>
                        \<lparr> var_declaration = VarVar, var_type = NumberType,
                          var_value = literal (find_token Int' line 0) \<rparr>))
                     commands))
      else scan line rest vars commands)"

text \<open>
  The outer loop over the lines.  \<open>console.log\<close> writes as the lines are run, so what
  was written stays written when a later line throws: the result is what standard output
  holds at the end, and the error that ended the run, if one did.
\<close>

fun run_lines :: "Token list list \<Rightarrow> variables \<Rightarrow> logged list \<times> error option" where
  "run_lines [] vars = ([], None)"
| "run_lines (line # rest) vars =
     (case scan line line vars [] of
        Inl e \<Rightarrow> ([], Some e)
      | Inr (vars', commands) \<Rightarrow>
          (case eval_joined commands of
             Inl e \<Rightarrow> ([], Some e)
           | Inr out \<Rightarrow>
               (case run_lines rest vars' of (outs, err) \<Rightarrow> (out @ outs, err))))"

definition interpreter :: "Tokenizer \<Rightarrow> logged list \<times> error option" where
  "interpreter tokenizer = run_lines (lines tokenizer) Map.empty"

text \<open>The statements of the module, for the text of \<open>input.txt\<close>.\<close>

definition program :: "string \<Rightarrow> logged list \<times> error option" where
  "program inp =
     (case new_Tokenizer inp of
        Inl e \<Rightarrow> ([], Some e)
      | Inr lexer \<Rightarrow>
          (case interpreter lexer of
             (outs, err) \<Rightarrow> ([Str ''lines'', Inspect (lines lexer)] @ outs, err)))"

section \<open>Facts about the interpreter's helpers\<close>

text \<open>The tokens of a kind, as \<open>find\<close> and the dispatch compare kinds.\<close>

definition of_kind :: "TokenItem \<Rightarrow> Token \<Rightarrow> bool" where
  "of_kind k t = (tok_type t = Some k)"

lemma find_from_Cons:
  "find_from token index i tok (t # rest) =
     (if of_kind token t then (if i = index then t else find_from token index (i + 1) t rest)
      else find_from token index i tok rest)"
  by (simp add: of_kind_def)

lemma find_from_filter:
  "i \<le> index \<Longrightarrow>
   find_from token index i tok line =
     (case drop (index - i) (filter (of_kind token) line) of
        t # _ \<Rightarrow> t
      | [] \<Rightarrow> (if filter (of_kind token) line = [] then tok
               else last (filter (of_kind token) line)))"
proof (induction line arbitrary: i tok)
  case Nil
  then show ?case by simp
next
  case (Cons t line)
  show ?case
  proof (cases "of_kind token t")
    case False
    with Cons show ?thesis
      by (simp add: find_from_Cons del: find_from.simps split: list.splits)
  next
    case True
    show ?thesis
    proof (cases "i = index")
      case True
      with \<open>of_kind token t\<close> show ?thesis by (simp add: find_from_Cons del: find_from.simps)
    next
      case False
      with Cons.prems have lt: "i + 1 \<le> index" by simp
      then have d: "index - i = Suc (index - (i + 1))" by simp
      from Cons.IH [OF lt, of t] True False show ?thesis
        by (simp add: find_from_Cons d del: find_from.simps split: list.splits)
    qed
  qed
qed

lemma find_token_filter:
  "find_token token line index =
     (case drop index (filter (of_kind token) line) of
        t # _ \<Rightarrow> t
      | [] \<Rightarrow> (if filter (of_kind token) line = [] then Token Illegal ''Illegal''
               else last (filter (of_kind token) line)))"
  using find_from_filter [of 0 index token "createToken Illegal ''Illegal''" line]
  by (simp add: find_token_def createToken_def)

lemma find_token_first:
  "find_token token line 0 =
     (case filter (of_kind token) line of [] \<Rightarrow> Token Illegal ''Illegal'' | t # _ \<Rightarrow> t)"
  by (simp add: find_token_filter split: list.splits)

lemma find_token_second:
  "find_token token line 1 =
     (case filter (of_kind token) line of
        [] \<Rightarrow> Token Illegal ''Illegal''
      | [only] \<Rightarrow> only
      | first # second # _ \<Rightarrow> second)"
  by (simp add: find_token_filter split: list.splits)

lemma find_token_absent:
  "tok_type (find_token token line 0) \<noteq> Some Illegal \<longleftrightarrow> (\<exists>t \<in> set line. of_kind token t)" if "token \<noteq> Illegal"
proof (cases "filter (of_kind token) line")
  case Nil
  then have "\<forall>t \<in> set line. \<not> of_kind token t" by (simp add: filter_empty_conv)
  with Nil show ?thesis by (auto simp: find_token_first)
next
  case (Cons t ts)
  then have "t \<in> set (filter (of_kind token) line)" by simp
  then have "t \<in> set line" "of_kind token t" by simp_all
  with Cons that show ?thesis by (auto simp: find_token_first of_kind_def)
qed

lemma hasVariable_iff: "hasVariable vars line \<longleftrightarrow> (\<exists>t \<in> set line. vars (literal t) \<noteq> None)"
  by (induction line) auto


lemma bit_length_0 [simp]: "bit_length 0 = 0"
  by (simp add: bit_length.simps)

lemma bit_length_pos: "0 < n \<Longrightarrow> bit_length n = Suc (bit_length (n div 2))"
  by (subst bit_length.simps) simp

lemma bit_length_upper: "n < 2 ^ bit_length n"
proof (induction n rule: bit_length.induct)
  case (1 n)
  show ?case
  proof (cases "n = 0")
    case True
    then show ?thesis by simp
  next
    case False
    with 1 have "n div 2 < 2 ^ bit_length (n div 2)" by simp
    then have "n < 2 * 2 ^ bit_length (n div 2)" by linarith
    with False show ?thesis by (simp add: bit_length_pos)
  qed
qed

lemma bit_length_lower: "0 < n \<Longrightarrow> 2 ^ (bit_length n - 1) \<le> n"
proof (induction n rule: bit_length.induct)
  case (1 n)
  show ?case
  proof (cases "n div 2 = 0")
    case True
    with "1.prems" show ?thesis by (simp add: bit_length_pos)
  next
    case False
    with 1 have "2 ^ (bit_length (n div 2) - 1) \<le> n div 2" by simp
    then have "2 * 2 ^ (bit_length (n div 2) - 1) \<le> n" by linarith
    moreover from False have "0 < bit_length (n div 2)" by (simp add: bit_length_pos)
    then have "2 * (2::nat) ^ (bit_length (n div 2) - 1) = 2 ^ bit_length (n div 2)"
      by (cases "bit_length (n div 2)") simp_all
    ultimately show ?thesis using "1.prems" by (simp add: bit_length_pos)
  qed
qed

lemma bit_length_eq:
  assumes "2 ^ b \<le> n" and "n < 2 ^ Suc b"
  shows "bit_length n = Suc b"
proof -
  from assms(1) have pos: "0 < n" by (metis less_le_trans zero_less_numeral zero_less_power)
  have "bit_length n \<le> Suc b"
  proof (rule ccontr)
    assume "\<not> bit_length n \<le> Suc b"
    then have "Suc b \<le> bit_length n - 1" by simp
    then have "(2::nat) ^ Suc b \<le> 2 ^ (bit_length n - 1)" by (rule power_increasing) simp
    with bit_length_lower [OF pos] assms(2) show False by simp
  qed
  moreover have "Suc b \<le> bit_length n"
  proof (rule ccontr)
    assume "\<not> Suc b \<le> bit_length n"
    then have "bit_length n \<le> b" by simp
    then have "(2::nat) ^ bit_length n \<le> 2 ^ b" by (rule power_increasing) simp
    with bit_length_upper [of n] assms(1) show False by simp
  qed
  ultimately show ?thesis by simp
qed

lemma bit_length_small: "n < 2 ^ k \<Longrightarrow> bit_length n \<le> k"
proof (rule ccontr)
  assume n: "n < 2 ^ k" and "\<not> bit_length n \<le> k"
  then have k: "k \<le> bit_length n - 1" and pos: "0 < n"
    by (simp, cases "n = 0") simp_all
  from k have "(2::nat) ^ k \<le> 2 ^ (bit_length n - 1)" by (rule power_increasing) simp
  with bit_length_lower [OF pos] n show False by linarith
qed

text \<open>Up to \<open>2 ^ 53\<close> every natural number is a double.\<close>

lemma to_double_exact:
  assumes "n \<le> 2 ^ 53"
  shows "to_double n = Some n"
proof (cases "n = 2 ^ 53")
  case True
  have "bit_length (2 ^ 53) = Suc 53"
    by (rule bit_length_eq) simp_all
  with True show ?thesis by (simp add: to_double_def Let_def)
next
  case False
  with assms have "n < 2 ^ 53" by simp
  then have "bit_length n \<le> 53" by (rule bit_length_small)
  moreover have "\<not> (2::nat) ^ 1024 \<le> n"
    using \<open>n < 2 ^ 53\<close> power_increasing [of 53 1024 "2::nat"] by simp
  ultimately show ?thesis by (simp add: to_double_def Let_def)
qed

lemma to_double_fixed:
  assumes "2 ^ 52 \<le> q" and "q \<le> 2 ^ 53" and "q * 2 ^ e < 2 ^ 1024"
  shows "to_double (q * 2 ^ e) = Some (q * 2 ^ e)"
proof (cases "q = 2 ^ 53")
  case True
  have n: "q * 2 ^ e = 2 ^ 52 * 2 ^ Suc e" using True by simp
  have "(2::nat) ^ 52 * 2 ^ Suc e = 2 ^ (52 + Suc e)" by (simp only: power_add)
  then have "bit_length (2 ^ 52 * 2 ^ Suc e) = Suc (52 + Suc e)"
    by (intro bit_length_eq) simp_all
  then have e: "bit_length (2 ^ 52 * 2 ^ Suc e) - 53 = Suc e" by simp
  have "to_double (2 ^ 52 * 2 ^ Suc e) = Some (2 ^ 52 * 2 ^ Suc e)"
    using assms(3) unfolding n to_double_def e Let_def by simp
  with n show ?thesis by simp
next
  case False
  with assms(2) have q: "q < 2 ^ 53" by simp
  have "(2::nat) ^ 52 * 2 ^ e \<le> q * 2 ^ e" using assms(1) by simp
  then have lo: "2 ^ (52 + e) \<le> q * 2 ^ e" by (simp only: power_add)
  have "q * 2 ^ e < 2 ^ 53 * 2 ^ e" using q by simp
  then have hi: "q * 2 ^ e < 2 ^ Suc (52 + e)" by (simp add: power_add)
  from lo hi have "bit_length (q * 2 ^ e) = Suc (52 + e)" by (rule bit_length_eq)
  then have e: "bit_length (q * 2 ^ e) - 53 = e" by simp
  show ?thesis
    using assms(3) unfolding to_double_def e Let_def by simp
qed

text \<open>
  The natural numbers \<open>to_double\<close> returns are doubles: it returns each of them as it
  is.  So two numbers \<open>Num m\<close> and \<open>Num n\<close> that \<open>parseInt\<close> returns are the same double
  only when \<open>m = n\<close>.
\<close>

lemma to_double_representable:
  assumes "to_double n = Some m"
  shows "to_double m = Some m"
proof (cases "bit_length n \<le> 53")
  case True
  have "n < 2 ^ bit_length n" by (rule bit_length_upper)
  also have "(2::nat) ^ bit_length n \<le> 2 ^ 53" using True by (rule power_increasing) simp
  finally have "n \<le> 2 ^ 53" by simp
  then have "to_double n = Some n" by (rule to_double_exact)
  with assms show ?thesis by simp
next
  case False
  define e where "e = bit_length n - 53"
  define q where "q = n div 2 ^ e"
  define q' where "q' = (if 2 ^ e < 2 * (n mod 2 ^ e) \<or> (2 * (n mod 2 ^ e) = 2 ^ e \<and> odd q) then q + 1 else q)"
  from False have b: "bit_length n = Suc (52 + e)" by (simp add: e_def)
  from False have pos: "0 < n" by (cases "n = 0") simp_all
  have "n < 2 ^ bit_length n" by (rule bit_length_upper)
  then have "n < 2 ^ 53 * 2 ^ e" by (simp add: b power_add)
  then have hi: "q < 2 ^ 53" unfolding q_def by (simp add: less_mult_imp_div_less)
  have "2 ^ (bit_length n - 1) \<le> n" using pos by (rule bit_length_lower)
  then have "2 ^ 52 * 2 ^ e \<le> n" by (simp add: b power_add)
  then have lo: "2 ^ 52 \<le> q" unfolding q_def by (simp add: less_eq_div_iff_mult_less_eq)
  define top :: nat where "top = 2 ^ 1024"
  have "to_double n = (if top \<le> q' * 2 ^ e then None else Some (q' * 2 ^ e))"
    by (simp only: to_double_def Let_def e_def q_def q'_def top_def)
  with assms have m: "m = q' * 2 ^ e" and "\<not> top \<le> q' * 2 ^ e"
    by (auto split: if_splits)
  then have fin: "q' * 2 ^ e < 2 ^ 1024" by (simp only: top_def not_le)
  have "2 ^ 52 \<le> q'" "q' \<le> 2 ^ 53" using lo hi by (auto simp: q'_def)
  from to_double_fixed [OF this fin] m show ?thesis by simp
qed

lemma isNumber_digit_value: "isNumber c \<Longrightarrow> digit_value c < 10"
  by (auto simp: isNumber_def digit_value_def charCodeAt_def Let_def)

lemma isNumber_not_space: "isNumber c \<Longrightarrow> \<not> isStrWhiteSpaceChar c"
  by (auto simp: isNumber_def isStrWhiteSpaceChar_def charCodeAt_def Let_def)

lemma isNumber_not_sign: "isNumber c \<Longrightarrow> c \<noteq> CHR ''+'' \<and> c \<noteq> CHR ''-'' \<and> c \<noteq> CHR ''x'' \<and> c \<noteq> CHR ''X''"
  by (auto simp: isNumber_def charCodeAt_def Let_def)

text \<open>
  \<open>parseInt\<close> of a run of digits: the double of the integer the digits denote in
  radix 10, which is that integer up to \<open>2 ^ 53\<close>.
\<close>

lemma parseInt_digits:
  assumes "ds \<noteq> []" and "\<forall>c \<in> set ds. isNumber c"
  shows "parseInt ds = (case to_double (digits_value 10 ds) of
                          None \<Rightarrow> PositiveInfinity | Some m \<Rightarrow> Num (int m))"
proof -
  from assms obtain d rest where ds: "ds = d # rest" and d: "isNumber d"
    by (cases ds) auto
  have w: "dropWhile isStrWhiteSpaceChar ds = ds"
    using ds d by (simp add: isNumber_not_space)
  have sign: "hd ds \<noteq> CHR ''+''" "hd ds \<noteq> CHR ''-''"
    using ds d isNumber_not_sign [of d] by simp_all
  have hex: "take 2 ds \<noteq> ''0x''" "take 2 ds \<noteq> ''0X''"
  proof -
    show "take 2 ds \<noteq> ''0x''"
    proof
      assume "take 2 ds = ''0x''"
      then have "CHR ''x'' \<in> set (take 2 ds)" by simp
      then have "CHR ''x'' \<in> set ds" by (rule in_set_takeD)
      with assms(2) isNumber_not_sign [of "CHR ''x''"] show False by blast
    qed
    show "take 2 ds \<noteq> ''0X''"
    proof
      assume "take 2 ds = ''0X''"
      then have "CHR ''X'' \<in> set (take 2 ds)" by simp
      then have "CHR ''X'' \<in> set ds" by (rule in_set_takeD)
      with assms(2) isNumber_not_sign [of "CHR ''X''"] show False by blast
    qed
  qed
  have z: "takeWhile (\<lambda>c. digit_value c < 10) ds = ds"
    using assms(2) by (simp add: isNumber_digit_value takeWhile_eq_all_conv)
  show ?thesis
    using assms(1) by (simp add: parseInt_def w sign hex z Let_def cong: option.case_cong)
qed

lemma parseInt_digits_exact:
  assumes "ds \<noteq> []" and "\<forall>c \<in> set ds. isNumber c" and "digits_value 10 ds \<le> 2 ^ 53"
  shows "parseInt ds = Num (int (digits_value 10 ds))"
  using parseInt_digits [OF assms(1,2)] to_double_exact [OF assms(3)] by simp

text \<open>A finite number that \<open>parseInt\<close> returns is a double.\<close>

lemma parseInt_representable:
  assumes "parseInt str = Num n"
  shows "to_double (nat \<bar>n\<bar>) = Some (nat \<bar>n\<bar>)"
proof -
  from assms obtain k m where "to_double k = Some m" and "n = int m \<or> n = - int m"
    by (auto simp: parseInt_def Let_def split: if_splits option.splits)
  then have "to_double m = Some m" "nat \<bar>n\<bar> = m"
    by (auto dest: to_double_representable)
  then show ?thesis by simp
qed

section \<open>The shape checker\<close>

lemma verifyTree_from_iff:
  "verifyTree_from tree i rest \<longleftrightarrow> (\<forall>j < length rest. tok_type (rest ! j) = at_index tree (i + j))"
proof (induction rest arbitrary: i)
  case Nil
  then show ?case by simp
next
  case (Cons token rest)
  show ?case
    by (simp add: Cons.IH All_less_Suc2 del: All_less_Suc)
qed

lemma treeMap_print:
  "treeMap ''print'' = Some [Print, ParentesesE, SingleQuote, Ident, SingleQuote, ParentesesD, EoL]"
  by (simp add: treeMap_def treeObj_def)

lemma treeMap_other: "statement \<noteq> ''print'' \<Longrightarrow> treeMap statement = None"
  by (simp add: treeMap_def treeObj_def)

text \<open>
  Claim C8, as amended.  The table maps the statement name \<open>print\<close> to the seven kinds
  \<open>Print, ParentesesE, SingleQuote, Ident, SingleQuote, ParentesesD, EoL\<close>: the
  statement terminator closes the template.  For the name \<open>print\<close> the checker returns
  true exactly when every position of the line holds the kind the template has at that
  position, where a position past the end of the template has no kind (which only a token
  without a kind matches); for any other statement name it returns false.
\<close>

theorem verifyTree_print_template:
  "treeMap ''print'' = Some [Print, ParentesesE, SingleQuote, Ident, SingleQuote, ParentesesD, EoL]
   \<and> (verifyTree line ''print'' \<longleftrightarrow>
        (\<forall>index < length line.
           tok_type (line ! index)
             = at_index [Print, ParentesesE, SingleQuote, Ident, SingleQuote, ParentesesD, EoL] index))
   \<and> (statement \<noteq> ''print'' \<longrightarrow> \<not> verifyTree line statement)"
  by (simp add: verifyTree_def treeMap_print treeMap_other verifyTree_from_iff)

theorem verifyTree_print_template_witness:
  "verifyTree [Token Print ''print'', Token ParentesesE ''('', Token SingleQuote [CHR 0x27],
               Token Ident ''a'', Token SingleQuote [CHR 0x27], Token ParentesesD '')''] ''print''
   \<and> \<not> verifyTree [Token Print ''print'', Token Ident ''a''] ''print''
   \<and> \<not> verifyTree [Token Print ''print''] ''var''"
proof -
  let ?tree = "[Print, ParentesesE, SingleQuote, Ident, SingleQuote, ParentesesD, EoL]"
  let ?good = "[Token Print ''print'', Token ParentesesE ''('', Token SingleQuote [CHR 0x27],
               Token Ident ''a'', Token SingleQuote [CHR 0x27], Token ParentesesD '')'']"
  let ?bad = "[Token Print ''print'', Token Ident ''a'']"
  have "\<forall>index < length ?good. tok_type (?good ! index) = at_index ?tree index"
    by (simp add: at_index_def All_less_Suc)
  then have "verifyTree ?good ''print''"
    using verifyTree_print_template [of ?good "''print''"] by blast
  moreover have "\<not> (\<forall>index < length ?bad. tok_type (?bad ! index) = at_index ?tree index)"
    by (simp add: at_index_def All_less_Suc)
  then have "\<not> verifyTree ?bad ''print''"
    using verifyTree_print_template [of ?bad "''print''"] by blast
  moreover have "\<not> verifyTree [Token Print ''print''] ''var''"
    using verifyTree_print_template [of "[Token Print ''print'']" "''var''"] by simp
  ultimately show ?thesis by blast
qed

text \<open>
  Against claim C8 as stated: the table does not hold the six kinds the claim lists, and
  a line of seven tokens that ends in a terminator token matches it.
\<close>

theorem print_template_six_counterexample:
  "treeMap ''print'' \<noteq> Some [Print, ParentesesE, SingleQuote, Ident, SingleQuote, ParentesesD]
   \<and> verifyTree [Token Print ''print'', Token ParentesesE ''('', Token SingleQuote [CHR 0x27],
                 Token Ident ''a'', Token SingleQuote [CHR 0x27], Token ParentesesD '')'',
                 Token EoL ''!''] ''print''"
  by (simp add: verifyTree_def treeMap_print at_index_def)

section \<open>Statement dispatch\<close>

text \<open>
  \<open>emits line rest vars out\<close>: the dispatch of \<open>line\<close>, standing at the tokens \<open>rest\<close>
  with the table \<open>vars\<close> and no command yet, leaves the table as it is and builds one
  command, which writes \<open>out\<close>.
\<close>

definition emits :: "Token list \<Rightarrow> Token list \<Rightarrow> variables \<Rightarrow> logged \<Rightarrow> bool" where
  "emits line rest vars out =
     (\<exists>c. scan line rest vars [] = Inr (vars, [c]) \<and> eval_joined [c] = Inr [out])"

lemma scan_Print:
  "tok_type atual = Some Print \<Longrightarrow>
   scan line (atual # rest) vars commands =
     (if \<exists>t \<in> set line. vars (literal t) \<noteq> None then
        (case vars (literal (find_token Ident line 0)) of
           None \<Rightarrow> Inl (TypeError ''type'')
         | Some v \<Rightarrow>
             Inr (vars, commands @
               [if var_type v = NumberType then LogNumber (parseInt (template (var_value v)))
                else LogQuoted (template (var_value v))]))
      else Inr (vars, commands @ [LogQuoted (template (literal (find_token Ident line 0)))]))"
  by (simp add: hasVariable_iff Let_def split: option.splits)

lemma first_literal:
  "literal (find_token token line 0) =
     Some (case filter (of_kind token) line of [] \<Rightarrow> ''Illegal'' | t # _ \<Rightarrow> template (literal t))"
proof (cases "filter (of_kind token) line")
  case Nil
  then show ?thesis by (simp add: find_token_first)
next
  case (Cons t ts)
  then have "t \<in> set (filter (of_kind token) line)" by simp
  then have "of_kind token t" by simp
  then obtain lit where "t = Token token lit" by (cases t) (auto simp: of_kind_def)
  with Cons show ?thesis by (simp add: find_token_first)
qed

lemma eval_joined_number: "eval_joined [LogNumber n] = Inr [Number (as_written n)]"
  by (simp add: eval_joined_def)

lemma eval_joined_quoted: "quotable str \<Longrightarrow> eval_joined [LogQuoted str] = Inr [Str str]"
  by (simp add: eval_joined_def)

text \<open>
  Claim C3, as amended.  Let the dispatch of a line stand at a \<open>Print\<close> token, and let
  \<open>first\<close> be the literal of the first \<open>Ident\<close> token of the line, or the text
  \<open>Illegal\<close> when the line has none.  If the literal of some token of the line is a key
  of the table and \<open>first\<close> is a key too, the statement writes the value stored under
  \<open>first\<close>.  For a variable of type number that is the number \<open>parseInt\<close> reads from
  the stored text: for a stored run of digits the double of the integer the digits
  denote in radix 10, which is that integer itself when it is at most \<open>2 ^ 53\<close>, and a
  rounded one or the infinity above.  For any other variable it is the stored text as it
  is.  If no literal of the line is a key, the statement writes \<open>first\<close> as it is, and
  the table is not read.  (A text is written as it is when it holds no quote, backslash
  or line break, as every literal of the tokenizer does.)
\<close>

theorem print_statement_output:
  assumes "tok_type atual = Some Print"
    and "first = (case filter (of_kind Ident) line of [] \<Rightarrow> ''Illegal'' | t # _ \<Rightarrow> template (literal t))"
  shows "((\<exists>t \<in> set line. vars (literal t) \<noteq> None) \<and> vars (Some first) = Some v
            \<and> var_type v = NumberType
          \<longrightarrow> emits line (atual # rest) vars
                (Number (as_written (parseInt (template (var_value v))))))
       \<and> ((\<exists>t \<in> set line. vars (literal t) \<noteq> None) \<and> vars (Some first) = Some v
            \<and> var_type v = NumberType \<and> var_value v = Some digits \<and> digits \<noteq> []
            \<and> (\<forall>c \<in> set digits. isNumber c)
          \<longrightarrow> emits line (atual # rest) vars
                (Number (case to_double (digits_value 10 digits) of
                           None \<Rightarrow> PositiveInfinity | Some m \<Rightarrow> Num (int m))))
       \<and> ((\<exists>t \<in> set line. vars (literal t) \<noteq> None) \<and> vars (Some first) = Some v
            \<and> var_type v = NumberType \<and> var_value v = Some digits \<and> digits \<noteq> []
            \<and> (\<forall>c \<in> set digits. isNumber c) \<and> digits_value 10 digits \<le> 2 ^ 53
          \<longrightarrow> emits line (atual # rest) vars (Number (Num (int (digits_value 10 digits)))))
       \<and> ((\<exists>t \<in> set line. vars (literal t) \<noteq> None) \<and> vars (Some first) = Some v
            \<and> var_type v \<noteq> NumberType \<and> quotable (template (var_value v))
          \<longrightarrow> emits line (atual # rest) vars (Str (template (var_value v))))
       \<and> ((\<forall>t \<in> set line. vars (literal t) = None) \<and> quotable first
          \<longrightarrow> emits line (atual # rest) vars (Str first))"
proof -
  have key: "literal (find_token Ident line 0) = Some first"
    using assms(2) by (simp add: first_literal)
  have number: "emits line (atual # rest) vars (Number (as_written (parseInt (template (var_value v)))))"
    if "\<exists>t \<in> set line. vars (literal t) \<noteq> None" "vars (Some first) = Some v"
      "var_type v = NumberType"
    using assms(1) that
    by (auto simp: emits_def scan_Print key eval_joined_number simp del: scan.simps)
  have digits: "as_written (parseInt (template (var_value v)))
      = (case to_double (digits_value 10 digits) of
           None \<Rightarrow> PositiveInfinity | Some m \<Rightarrow> Num (int m))"
    if "var_value v = Some digits" "digits \<noteq> []" "\<forall>c \<in> set digits. isNumber c"
    using that parseInt_digits [of digits]
    by (simp add: as_written_def split: option.splits)
  have exact: "as_written (parseInt (template (var_value v))) = Num (int (digits_value 10 digits))"
    if "var_value v = Some digits" "digits \<noteq> []" "\<forall>c \<in> set digits. isNumber c"
      "digits_value 10 digits \<le> 2 ^ 53"
    using that parseInt_digits_exact [of digits]
    by (simp add: as_written_def)
  have string: "emits line (atual # rest) vars (Str (template (var_value v)))"
    if "\<exists>t \<in> set line. vars (literal t) \<noteq> None" "vars (Some first) = Some v"
      "var_type v \<noteq> NumberType" "quotable (template (var_value v))"
    using assms(1) that
    by (auto simp: emits_def scan_Print key eval_joined_quoted simp del: scan.simps)
  have lit: "emits line (atual # rest) vars (Str first)"
    if "\<forall>t \<in> set line. vars (literal t) = None" "quotable first"
    using assms(1) that
    by (auto simp: emits_def scan_Print key eval_joined_quoted simp del: scan.simps)
  show ?thesis
  proof (intro conjI impI)
    assume "(\<exists>t \<in> set line. vars (literal t) \<noteq> None) \<and> vars (Some first) = Some v
        \<and> var_type v = NumberType"
    then show "emits line (atual # rest) vars
        (Number (as_written (parseInt (template (var_value v)))))"
      using number by blast
  next
    assume a: "(\<exists>t \<in> set line. vars (literal t) \<noteq> None) \<and> vars (Some first) = Some v
        \<and> var_type v = NumberType \<and> var_value v = Some digits \<and> digits \<noteq> []
        \<and> (\<forall>c \<in> set digits. isNumber c)"
    then have "emits line (atual # rest) vars
        (Number (as_written (parseInt (template (var_value v)))))"
      using number by blast
    with a digits show "emits line (atual # rest) vars
        (Number (case to_double (digits_value 10 digits) of
                   None \<Rightarrow> PositiveInfinity | Some m \<Rightarrow> Num (int m)))"
      by simp
  next
    assume a: "(\<exists>t \<in> set line. vars (literal t) \<noteq> None) \<and> vars (Some first) = Some v
        \<and> var_type v = NumberType \<and> var_value v = Some digits \<and> digits \<noteq> []
        \<and> (\<forall>c \<in> set digits. isNumber c) \<and> digits_value 10 digits \<le> 2 ^ 53"
    then have "emits line (atual # rest) vars
        (Number (as_written (parseInt (template (var_value v)))))"
      using number by blast
    with a exact show "emits line (atual # rest) vars (Number (Num (int (digits_value 10 digits))))"
      by simp
  next
    assume "(\<exists>t \<in> set line. vars (literal t) \<noteq> None) \<and> vars (Some first) = Some v
        \<and> var_type v \<noteq> NumberType \<and> quotable (template (var_value v))"
    then show "emits line (atual # rest) vars (Str (template (var_value v)))"
      using string by blast
  next
    assume "(\<forall>t \<in> set line. vars (literal t) = None) \<and> quotable first"
    then show "emits line (atual # rest) vars (Str first)"
      using lit by blast
  qed
qed

lemmas interpreter_eval =
  find_token_def createToken_def at_index_def eval_joined_def quotable_def parseInt_def
  isStrWhiteSpaceChar_def digit_value_def digits_value_def charCodeAt_def Let_def
  to_double_def bit_length.simps as_written_def

lemma digits_123: "digits_value 10 ''123'' = 123"
  by (simp add: digits_value_def digit_value_def charCodeAt_def)

lemma digits_rounded:
  "digits_value 10 ''9007199254740993'' = 9007199254740993"
  "to_double 9007199254740993 = Some 9007199254740992"
  by (simp_all add: digits_value_def digit_value_def charCodeAt_def to_double_def
      bit_length.simps Let_def)

theorem print_statement_output_witness:
  "emits [Token Print ''print'', Token ParentesesE ''('', Token Ident ''x'', Token ParentesesD '')'']
         [Token Print ''print'', Token ParentesesE ''('', Token Ident ''x'', Token ParentesesD '')'']
         (Map.empty(Some ''x'' \<mapsto> \<lparr>var_declaration = VarVar, var_type = NumberType, var_value = Some ''123''\<rparr>))
         (Number (Num 123))
   \<and> emits [Token Print ''print'', Token ParentesesE ''('', Token Ident ''x'', Token ParentesesD '')'']
         [Token Print ''print'', Token ParentesesE ''('', Token Ident ''x'', Token ParentesesD '')'']
         (Map.empty(Some ''x'' \<mapsto> \<lparr>var_declaration = VarVar, var_type = NumberType,
            var_value = Some ''9007199254740993''\<rparr>))
         (Number (Num 9007199254740992))
   \<and> emits [Token Print ''print'', Token ParentesesE ''('', Token Ident ''x'', Token ParentesesD '')'']
         [Token Print ''print'', Token ParentesesE ''('', Token Ident ''x'', Token ParentesesD '')'']
         (Map.empty(Some ''x'' \<mapsto> \<lparr>var_declaration = VarVar, var_type = NumberType,
            var_value = Some ''Illegal''\<rparr>))
         (Number NaN)
   \<and> emits [Token Print ''print'', Token ParentesesE ''('', Token Ident ''x'', Token ParentesesD '')'']
         [Token Print ''print'', Token ParentesesE ''('', Token Ident ''x'', Token ParentesesD '')'']
         (Map.empty(Some ''x'' \<mapsto> \<lparr>var_declaration = VarVar, var_type = StringType, var_value = Some ''hi''\<rparr>))
         (Str ''hi'')
   \<and> emits [Token Print ''print'', Token ParentesesE ''('', Token SingleQuote [CHR 0x27],
            Token Ident ''lit'', Token SingleQuote [CHR 0x27], Token ParentesesD '')'']
         [Token Print ''print'', Token ParentesesE ''('', Token SingleQuote [CHR 0x27],
            Token Ident ''lit'', Token SingleQuote [CHR 0x27], Token ParentesesD '')'']
         Map.empty
         (Str ''lit'')"
proof -
  let ?ref = "[Token Print ''print'', Token ParentesesE ''('', Token Ident ''x'', Token ParentesesD '')'']"
  let ?lit = "[Token Print ''print'', Token ParentesesE ''('', Token SingleQuote [CHR 0x27],
            Token Ident ''lit'', Token SingleQuote [CHR 0x27], Token ParentesesD '')'']"
  let ?n = "\<lparr>var_declaration = VarVar, var_type = NumberType, var_value = Some ''123''\<rparr>"
  let ?big = "\<lparr>var_declaration = VarVar, var_type = NumberType,
            var_value = Some ''9007199254740993''\<rparr>"
  let ?nan = "\<lparr>var_declaration = VarVar, var_type = NumberType, var_value = Some ''Illegal''\<rparr>"
  let ?s = "\<lparr>var_declaration = VarVar, var_type = StringType, var_value = Some ''hi''\<rparr>"
  have "emits ?ref ?ref (Map.empty(Some ''x'' \<mapsto> ?n)) (Number (Num 123))"
    using print_statement_output [where atual = "Token Print ''print''" and first = "''x''"
        and line = ?ref and vars = "Map.empty(Some ''x'' \<mapsto> ?n)" and v = ?n
        and digits = "''123''"
        and rest = "[Token ParentesesE ''('', Token Ident ''x'', Token ParentesesD '')'']"]
    by (simp add: of_kind_def isNumber_def charCodeAt_def digits_123)
  moreover have "emits ?ref ?ref (Map.empty(Some ''x'' \<mapsto> ?big)) (Number (Num 9007199254740992))"
    using print_statement_output [where atual = "Token Print ''print''" and first = "''x''"
        and line = ?ref and vars = "Map.empty(Some ''x'' \<mapsto> ?big)" and v = ?big
        and digits = "''9007199254740993''"
        and rest = "[Token ParentesesE ''('', Token Ident ''x'', Token ParentesesD '')'']"]
    by (simp add: of_kind_def isNumber_def charCodeAt_def digits_rounded)
  moreover have "parseInt ''Illegal'' = NaN"
    by (simp add: interpreter_eval)
  then have "emits ?ref ?ref (Map.empty(Some ''x'' \<mapsto> ?nan)) (Number NaN)"
    using print_statement_output [where atual = "Token Print ''print''" and first = "''x''"
        and line = ?ref and vars = "Map.empty(Some ''x'' \<mapsto> ?nan)" and v = ?nan
        and rest = "[Token ParentesesE ''('', Token Ident ''x'', Token ParentesesD '')'']"]
    by (simp add: of_kind_def as_written_def)
  moreover have "emits ?ref ?ref (Map.empty(Some ''x'' \<mapsto> ?s)) (Str ''hi'')"
    using print_statement_output [where atual = "Token Print ''print''" and first = "''x''"
        and line = ?ref and vars = "Map.empty(Some ''x'' \<mapsto> ?s)" and v = ?s
        and rest = "[Token ParentesesE ''('', Token Ident ''x'', Token ParentesesD '')'']"]
    by (simp add: of_kind_def quotable_def)
  moreover have "emits ?lit ?lit Map.empty (Str ''lit'')"
    using print_statement_output [where atual = "Token Print ''print''" and first = "''lit''"
        and line = ?lit and vars = Map.empty
        and rest = "[Token ParentesesE ''('', Token SingleQuote [CHR 0x27],
            Token Ident ''lit'', Token SingleQuote [CHR 0x27], Token ParentesesD '')'']"]
    by (simp add: of_kind_def quotable_def)
  ultimately show ?thesis by blast
qed

text \<open>
  Against claim C3 as stated: with \<open>x\<close> declared, the line \<open>print(y x)\<close> has a literal
  that is a key, and its first \<open>Ident\<close> token \<open>y\<close> is none: no value is written, the
  lookup throws.
\<close>

theorem print_missing_key_counterexample:
  "scan [Token Print ''print'', Token ParentesesE ''('', Token Ident ''y'', Token Ident ''x'',
         Token ParentesesD '')'']
        [Token Print ''print'', Token ParentesesE ''('', Token Ident ''y'', Token Ident ''x'',
         Token ParentesesD '')'']
        (Map.empty(Some ''x'' \<mapsto>
           \<lparr>var_declaration = VarVar, var_type = NumberType, var_value = Some ''5''\<rparr>))
        []
     = Inl (TypeError ''type'')"
  by (simp add: interpreter_eval)


lemma scan_skip:
  "\<forall>t \<in> set before. tok_type t \<noteq> Some Print \<and> tok_type t \<noteq> Some Variable \<Longrightarrow>
   scan line (before @ rest) vars commands = scan line rest vars commands"
  by (induction before) simp_all

lemma run_lines_abort:
  "scan line line vars [] = Inl e \<Longrightarrow> run_lines (line # later) vars = ([], Some e)"
  by simp

text \<open>
  Claim C9.  When the dispatch stands at a \<open>Print\<close> token, some literal of the line is a
  key of the table, and the literal of the first \<open>Ident\<close> token (the text \<open>Illegal\<close>
  without one) is no key, the value \<open>variables.get\<close> returns is \<open>undefined\<close> and
  reading its \<open>type\<close> throws a \<open>TypeError\<close>: the run ends there, with no message
  about an undefined variable.  The witness is such a line.
\<close>

theorem print_lookup_unguarded:
  assumes "tok_type atual = Some Print"
    and "\<exists>t \<in> set line. vars (literal t) \<noteq> None"
    and "first = (case filter (of_kind Ident) line of [] \<Rightarrow> ''Illegal'' | t # _ \<Rightarrow> template (literal t))"
    and "vars (Some first) = None"
  shows "scan line (atual # rest) vars commands = Inl (TypeError ''type'')
       \<and> (line = before @ atual # rest
            \<and> (\<forall>t \<in> set before. tok_type t \<noteq> Some Print \<and> tok_type t \<noteq> Some Variable)
          \<longrightarrow> run_lines (line # later) vars = ([], Some (TypeError ''type'')))"
proof -
  have key: "literal (find_token Ident line 0) = Some first"
    using assms(3) by (simp add: first_literal)
  have stop: "scan line (atual # rest) vars cs = Inl (TypeError ''type'')" for cs
    using assms(1,2,4) by (simp add: scan_Print key del: scan.simps)
  show ?thesis
  proof (intro conjI impI)
    show "scan line (atual # rest) vars commands = Inl (TypeError ''type'')"
      by (rule stop)
  next
    assume a: "line = before @ atual # rest
      \<and> (\<forall>t \<in> set before. tok_type t \<noteq> Some Print \<and> tok_type t \<noteq> Some Variable)"
    then have "scan line line vars [] = scan line (atual # rest) vars []"
      using scan_skip [of before line "atual # rest" vars "[]"] by simp
    then have "scan line line vars [] = Inl (TypeError ''type'')"
      by (simp only: stop)
    then show "run_lines (line # later) vars = ([], Some (TypeError ''type''))"
      by (rule run_lines_abort)
  qed
qed

lemmas lexer_eval =
  program_def interpreter_def new_Tokenizer_def constructor_def lex.simps getNextToken_def
  skipWhitespace.simps readIdent_loop.simps readInt_loop.simps readIdent_def readInt_def
  slice_def Keywords_def object_prototype_members_def readChar_def initial_def NUL_def
  isWhitespace_def isLetter_def isNumber_def switch_token_def decimal.simps digit_char_def

theorem print_lookup_unguarded_witness:
  "scan [Token Print ''print'', Token ParentesesE ''('', Token Ident ''b'', Token Ident ''a'',
         Token ParentesesD '')'']
        [Token Print ''print'', Token ParentesesE ''('', Token Ident ''b'', Token Ident ''a'',
         Token ParentesesD '')'']
        (Map.empty(Some ''a'' \<mapsto>
           \<lparr>var_declaration = VarVar, var_type = NumberType, var_value = Some ''1''\<rparr>))
        [] = Inl (TypeError ''type'')
   \<and> run_lines
        [[Token Print ''print'', Token ParentesesE ''('', Token Ident ''b'', Token Ident ''a'',
          Token ParentesesD '')''],
         [Token Print ''print'', Token ParentesesE ''('', Token Ident ''a'', Token ParentesesD '')'']]
        (Map.empty(Some ''a'' \<mapsto>
           \<lparr>var_declaration = VarVar, var_type = NumberType, var_value = Some ''1''\<rparr>))
      = ([], Some (TypeError ''type''))
   \<and> snd (program ''var a = 1! print(b a)! print(a)!'') = Some (TypeError ''type'')"
proof -
  let ?line = "[Token Print ''print'', Token ParentesesE ''('', Token Ident ''b'', Token Ident ''a'',
         Token ParentesesD '')'']"
  let ?vars = "Map.empty(Some ''a'' \<mapsto>
           \<lparr>var_declaration = VarVar, var_type = NumberType, var_value = Some ''1''\<rparr>)"
  have "snd (program ''var a = 1! print(b a)! print(a)!'') = Some (TypeError ''type'')"
    by (simp add: lexer_eval interpreter_eval)
  then show ?thesis
    using print_lookup_unguarded [where atual = "Token Print ''print''" and line = ?line
        and vars = ?vars and first = "''b''" and before = "[]" and commands = "[]"
        and rest = "[Token ParentesesE ''('', Token Ident ''b'', Token Ident ''a'', Token ParentesesD '')'']"
        and later = "[[Token Print ''print'', Token ParentesesE ''('', Token Ident ''a'', Token ParentesesD '')'']]"]
    by (simp add: of_kind_def del: scan.simps run_lines.simps)
qed


text \<open>What a \<open>var\<close> statement stores, from the line alone.\<close>

definition quoted :: "Token list \<Rightarrow> bool" where
  "quoted line = (\<exists>t \<in> set line. of_kind SingleQuote t \<or> of_kind DoubleQuote t)"

definition stored :: "Token list \<Rightarrow> IVariable" where
  "stored line =
     (if quoted line then
        \<lparr> var_declaration = VarVar, var_type = StringType,
          var_value = literal (find_token Ident line 1) \<rparr>
      else
        \<lparr> var_declaration = VarVar, var_type = NumberType,
          var_value = literal (find_token Int' line 0) \<rparr>)"

lemma scan_Variable:
  "tok_type atual = Some Variable \<Longrightarrow>
   scan line (atual # rest) vars commands =
     (case at_index line 1 of
        None \<Rightarrow> Inl (TypeError ''literal'')
      | Some name \<Rightarrow> scan line rest (vars(literal name \<mapsto> stored line)) commands)"
proof -
  assume var: "tok_type atual = Some Variable"
  have q: "(tok_type (find_token SingleQuote line 0) \<noteq> Some Illegal
            \<or> tok_type (find_token DoubleQuote line 0) \<noteq> Some Illegal) = quoted line"
    using find_token_absent [of SingleQuote line] find_token_absent [of DoubleQuote line]
    by (auto simp: quoted_def)
  show ?thesis
  proof (cases "quoted line")
    case True
    with q have "tok_type (find_token SingleQuote line 0) \<noteq> Some Illegal
            \<or> tok_type (find_token DoubleQuote line 0) \<noteq> Some Illegal" by simp
    with var True show ?thesis
      by (simp add: stored_def Let_def split: option.splits)
  next
    case False
    with q have "\<not> (tok_type (find_token SingleQuote line 0) \<noteq> Some Illegal
            \<or> tok_type (find_token DoubleQuote line 0) \<noteq> Some Illegal)" by simp
    with var False show ?thesis
      by (simp add: stored_def Let_def split: option.splits)
  qed
qed

lemma second_literal:
  "literal (find_token token line (Suc 0)) =
     (case filter (of_kind token) line of
        [] \<Rightarrow> Some ''Illegal''
      | [only] \<Rightarrow> literal only
      | first # second # _ \<Rightarrow> literal second)"
  using find_token_second [of token line] by (simp split: list.splits)

lemma first_literal_option:
  "literal (find_token token line 0) =
     (case filter (of_kind token) line of [] \<Rightarrow> Some ''Illegal'' | first # _ \<Rightarrow> literal first)"
  by (simp add: find_token_first split: list.splits)

lemma scan_table:
  "scan line rest vars commands = Inr (vars', commands') \<Longrightarrow>
   vars' = vars \<or> (\<exists>name. at_index line 1 = Some name \<and> vars' = vars(literal name \<mapsto> stored line))"
proof (induction rest arbitrary: vars)
  case Nil
  then show ?case by simp
next
  case (Cons atual rest)
  show ?case
  proof (cases "tok_type atual = Some Print")
    case True
    with Cons.prems show ?thesis
      by (auto simp: scan_Print simp del: scan.simps split: if_splits option.splits)
  next
    case notPrint: False
    show ?thesis
    proof (cases "tok_type atual = Some Variable")
      case True
      with Cons.prems obtain name where name: "at_index line 1 = Some name"
        and run: "scan line rest (vars(literal name \<mapsto> stored line)) commands = Inr (vars', commands')"
        by (auto simp: scan_Variable simp del: scan.simps split: option.splits)
      from Cons.IH [OF run] name show ?thesis by auto
    next
      case False
      with notPrint Cons.prems have "scan line rest vars commands = Inr (vars', commands')"
        by simp
      then show ?thesis by (rule Cons.IH)
    qed
  qed
qed

text \<open>
  Claim C4, as amended.  Let the dispatch stand at a \<open>Variable\<close> token of a line of at
  least two tokens.  Then a variable is stored under the literal of the token at position
  1 of the line, whatever its kind (with the keyword at position 0, that is the token
  after it), and it is what the table holds under that key when the dispatch of the line
  ends.  If a \<open>SingleQuote\<close> or \<open>DoubleQuote\<close> token occurs in the line, the variable
  has type string and its value is the literal of the second \<open>Ident\<close> token of the line;
  with one \<open>Ident\<close> token only it is the literal of that token, with none the text
  \<open>Illegal\<close>.  If no quote occurs, the variable has type number and its value is the
  literal of the first \<open>Int\<close> token, or the text \<open>Illegal\<close> without one.
\<close>

theorem var_statement_stores:
  assumes "tok_type atual = Some Variable" and "1 < length line"
  shows "\<exists>v. scan line (atual # rest) vars commands
               = scan line rest (vars(literal (line ! 1) \<mapsto> v)) commands
           \<and> (\<forall>vars' commands'.
                 scan line (atual # rest) vars commands = Inr (vars', commands')
                 \<longrightarrow> vars' = vars(literal (line ! 1) \<mapsto> v))
           \<and> var_declaration v = VarVar
           \<and> var_type v =
               (if \<exists>t \<in> set line. of_kind SingleQuote t \<or> of_kind DoubleQuote t
                then StringType else NumberType)
           \<and> var_value v =
               (if \<exists>t \<in> set line. of_kind SingleQuote t \<or> of_kind DoubleQuote t
                then (case filter (of_kind Ident) line of
                        [] \<Rightarrow> Some ''Illegal''
                      | [only] \<Rightarrow> literal only
                      | first # second # _ \<Rightarrow> literal second)
                else (case filter (of_kind Int') line of
                        [] \<Rightarrow> Some ''Illegal''
                      | first # _ \<Rightarrow> literal first))"
proof -
  from assms(2) have name: "at_index line 1 = Some (line ! 1)"
    by (simp add: at_index_def)
  let ?vars = "vars(literal (line ! 1) \<mapsto> stored line)"
  have step: "scan line (atual # rest) vars commands = scan line rest ?vars commands"
    using assms(1) name by (simp add: scan_Variable del: scan.simps)
  have final: "vars' = ?vars"
    if "scan line (atual # rest) vars commands = Inr (vars', commands')" for vars' commands'
  proof -
    from that step have "scan line rest ?vars commands = Inr (vars', commands')" by simp
    from scan_table [OF this] name show ?thesis by auto
  qed
  have "var_declaration (stored line) = VarVar"
    by (simp add: stored_def)
  moreover have "var_type (stored line) =
      (if \<exists>t \<in> set line. of_kind SingleQuote t \<or> of_kind DoubleQuote t
       then StringType else NumberType)"
    by (simp add: stored_def quoted_def)
  moreover have "var_value (stored line) =
      (if \<exists>t \<in> set line. of_kind SingleQuote t \<or> of_kind DoubleQuote t
       then (case filter (of_kind Ident) line of
               [] \<Rightarrow> Some ''Illegal''
             | [only] \<Rightarrow> literal only
             | first # second # _ \<Rightarrow> literal second)
       else (case filter (of_kind Int') line of
               [] \<Rightarrow> Some ''Illegal''
             | first # _ \<Rightarrow> literal first))"
    by (simp add: stored_def quoted_def second_literal first_literal_option)
  ultimately show ?thesis using step final by blast
qed


theorem var_statement_stores_witness:
  "scan [Token Variable ''var'', Token Ident ''x'', Token AssignOrEqual ''='',
         Token SingleQuote [CHR 0x27], Token Ident ''hi'', Token SingleQuote [CHR 0x27]]
        [Token Variable ''var'', Token Ident ''x'', Token AssignOrEqual ''='',
         Token SingleQuote [CHR 0x27], Token Ident ''hi'', Token SingleQuote [CHR 0x27]]
        Map.empty []
     = Inr (Map.empty(Some ''x'' \<mapsto>
              \<lparr>var_declaration = VarVar, var_type = StringType, var_value = Some ''hi''\<rparr>), [])
   \<and> scan [Token Variable ''var'', Token Ident ''y'', Token AssignOrEqual ''='', Token Int' ''42'']
        [Token Variable ''var'', Token Ident ''y'', Token AssignOrEqual ''='', Token Int' ''42'']
        Map.empty []
     = Inr (Map.empty(Some ''y'' \<mapsto>
              \<lparr>var_declaration = VarVar, var_type = NumberType, var_value = Some ''42''\<rparr>), [])"
proof -
  let ?str = "[Token Variable ''var'', Token Ident ''x'', Token AssignOrEqual ''='',
         Token SingleQuote [CHR 0x27], Token Ident ''hi'', Token SingleQuote [CHR 0x27]]"
  let ?num = "[Token Variable ''var'', Token Ident ''y'', Token AssignOrEqual ''='', Token Int' ''42'']"
  obtain v where v: "scan ?str ?str Map.empty [] = scan ?str (tl ?str) (Map.empty(literal (?str ! 1) \<mapsto> v)) []"
      "var_declaration v = VarVar" "var_type v = StringType" "var_value v = Some ''hi''"
    using var_statement_stores [where atual = "Token Variable ''var''" and line = ?str
        and rest = "tl ?str" and vars = Map.empty and commands = "[]"]
    by (auto simp: of_kind_def simp del: scan.simps)
  then have "v = \<lparr>var_declaration = VarVar, var_type = StringType, var_value = Some ''hi''\<rparr>"
    by (cases v) simp
  with v(1) have str: "scan ?str ?str Map.empty []
     = Inr (Map.empty(Some ''x'' \<mapsto>
              \<lparr>var_declaration = VarVar, var_type = StringType, var_value = Some ''hi''\<rparr>), [])"
    by simp
  obtain w where w: "scan ?num ?num Map.empty [] = scan ?num (tl ?num) (Map.empty(literal (?num ! 1) \<mapsto> w)) []"
      "var_declaration w = VarVar" "var_type w = NumberType" "var_value w = Some ''42''"
    using var_statement_stores [where atual = "Token Variable ''var''" and line = ?num
        and rest = "tl ?num" and vars = Map.empty and commands = "[]"]
    by (auto simp: of_kind_def simp del: scan.simps)
  then have "w = \<lparr>var_declaration = VarVar, var_type = NumberType, var_value = Some ''42''\<rparr>"
    by (cases w) simp
  with w(1) have "scan ?num ?num Map.empty []
     = Inr (Map.empty(Some ''y'' \<mapsto>
              \<lparr>var_declaration = VarVar, var_type = NumberType, var_value = Some ''42''\<rparr>), [])"
    by simp
  with str show ?thesis by (rule conjI)
qed

text \<open>
  Against claim C4 as stated: the script \<open>var!\<close> has a line whose dispatch reaches the
  keyword; nothing is stored, the run ends with a \<open>TypeError\<close>.
\<close>

theorem var_alone_counterexample:
  "program ''var!''
     = ([Str ''lines'', Inspect [[Token Variable ''var'']]], Some (TypeError ''literal''))"
  by (simp add: lexer_eval interpreter_eval)

text \<open>
  Claim C10.  Whenever the dispatch stands at a \<open>Variable\<close> token, the statement reads
  \<open>line[1].literal\<close>: in a line of fewer than two tokens \<open>line[1]\<close> is \<open>undefined\<close>
  and the access throws a \<open>TypeError\<close>, in a longer line the variable is stored under
  that literal.  A line that is the keyword alone therefore ends the run: nothing of the
  later lines is written.
\<close>

theorem var_reads_position_one:
  assumes "tok_type atual = Some Variable"
  shows "(length line < 2 \<longrightarrow>
            scan line (atual # rest) vars commands = Inl (TypeError ''literal''))
       \<and> (2 \<le> length line \<longrightarrow>
            (\<exists>v. scan line (atual # rest) vars commands
                   = scan line rest (vars(literal (line ! 1) \<mapsto> v)) commands))
       \<and> run_lines ([atual] # later) vars = ([], Some (TypeError ''literal''))"
proof (intro conjI impI)
  assume "length line < 2"
  then have "at_index line 1 = None" by (simp add: at_index_def)
  with assms show "scan line (atual # rest) vars commands = Inl (TypeError ''literal'')"
    by (simp add: scan_Variable del: scan.simps)
next
  assume "2 \<le> length line"
  then have "at_index line 1 = Some (line ! 1)" by (simp add: at_index_def)
  with assms show "\<exists>v. scan line (atual # rest) vars commands
      = scan line rest (vars(literal (line ! 1) \<mapsto> v)) commands"
    by (auto simp: scan_Variable simp del: scan.simps)
next
  have "at_index [atual] 1 = None" by (simp add: at_index_def)
  with assms have "scan [atual] [atual] vars [] = Inl (TypeError ''literal'')"
    by (simp add: scan_Variable del: scan.simps)
  then show "run_lines ([atual] # later) vars = ([], Some (TypeError ''literal''))"
    by (rule run_lines_abort)
qed

theorem var_reads_position_one_witness:
  "scan [Token Variable ''var''] [Token Variable ''var''] Map.empty [] = Inl (TypeError ''literal'')
   \<and> (\<exists>v. scan [Token Variable ''var'', Token Ident ''x'']
                 [Token Variable ''var'', Token Ident ''x''] Map.empty []
             = Inr (Map.empty(Some ''x'' \<mapsto> v), []))
   \<and> run_lines [[Token Variable ''var''],
                 [Token Print ''print'', Token ParentesesE ''('', Token Ident ''a'',
                  Token ParentesesD '')'']] Map.empty
       = ([], Some (TypeError ''literal''))
   \<and> program ''var! print(a)!''
       = ([Str ''lines'',
           Inspect [[Token Variable ''var''],
                    [Token Print ''print'', Token ParentesesE ''('', Token Ident ''a'',
                     Token ParentesesD '')'']]],
          Some (TypeError ''literal''))"
proof -
  have "program ''var! print(a)!''
       = ([Str ''lines'',
           Inspect [[Token Variable ''var''],
                    [Token Print ''print'', Token ParentesesE ''('', Token Ident ''a'',
                     Token ParentesesD '')'']]],
          Some (TypeError ''literal''))"
    by (simp add: lexer_eval interpreter_eval)
  moreover have "\<exists>v. scan [Token Variable ''var'', Token Ident ''x'']
                 [Token Variable ''var'', Token Ident ''x''] Map.empty []
             = Inr (Map.empty(Some ''x'' \<mapsto> v), [])"
    using var_reads_position_one [where atual = "Token Variable ''var''"
        and line = "[Token Variable ''var'', Token Ident ''x'']" and rest = "[Token Ident ''x'']"
        and vars = Map.empty and commands = "[]" and later = "[]"]
    by (simp add: interpreter_eval)
  ultimately show ?thesis
    using var_reads_position_one [where atual = "Token Variable ''var''"
        and line = "[Token Variable ''var'']" and rest = "[]" and vars = Map.empty
        and commands = "[]"
        and later = "[[Token Print ''print'', Token ParentesesE ''('', Token Ident ''a'',
                  Token ParentesesD '')'']]"]
    by (simp del: scan.simps run_lines.simps)
qed

text \<open>
  Claim C2 fails on the code.  The \<open>Print\<close> branch of the dispatch ends with \<open>break\<close>,
  the \<open>Variable\<close> branch does not: after a declaration the loop goes on over the rest
  of the line.  On the line \<open>var x = 1 print(x)\<close> both actions run: the variable is
  stored and the command that prints it is built and run.
\<close>

theorem var_then_print_on_one_line:
  "scan [Token Variable ''var'', Token Ident ''x'', Token AssignOrEqual ''='', Token Int' ''1'',
         Token Print ''print'', Token ParentesesE ''('', Token Ident ''x'', Token ParentesesD '')'']
        [Token Variable ''var'', Token Ident ''x'', Token AssignOrEqual ''='', Token Int' ''1'',
         Token Print ''print'', Token ParentesesE ''('', Token Ident ''x'', Token ParentesesD '')'']
        Map.empty []
     = Inr (Map.empty(Some ''x'' \<mapsto>
              \<lparr>var_declaration = VarVar, var_type = NumberType, var_value = Some ''1''\<rparr>),
            [LogNumber (Num 1)])
   \<and> program ''var x = 1 print(x)!''
     = ([Str ''lines'',
         Inspect [[Token Variable ''var'', Token Ident ''x'', Token AssignOrEqual ''='',
                   Token Int' ''1'', Token Print ''print'', Token ParentesesE ''('',
                   Token Ident ''x'', Token ParentesesD '')'']],
         Number (Num 1)], None)"
  by (simp add: lexer_eval interpreter_eval)

section \<open>The tokenizer as a function of the text still to be read\<close>

text \<open>
  After the first \<open>readChar\<close> the fields of the cursor stay in step: \<open>readPosition\<close> is
  one past \<open>position\<close>, and \<open>ch\<close> is the character at \<open>position\<close>, or the end marker
  past the end of the input.  \<open>unread\<close> is the text from the current character on.
\<close>

definition cursor_ok :: "Tokenizer \<Rightarrow> bool" where
  "cursor_ok s =
     (readPosition s = position s + 1
      \<and> ch s = (if position s < length (input s) then input s ! position s else NUL))"

definition unread :: "Tokenizer \<Rightarrow> string" where
  "unread s = drop (position s) (input s)"

definition current :: "string \<Rightarrow> char" where
  "current r = (case r of [] \<Rightarrow> NUL | c # _ \<Rightarrow> c)"

lemma current_simps [simp]: "current [] = NUL" "current (c # cs) = c"
  by (simp_all add: current_def)

lemma cursor_ok_ch: "cursor_ok s \<Longrightarrow> ch s = current (unread s)"
  by (auto simp: cursor_ok_def unread_def current_def hd_drop_conv_nth Cons_nth_drop_Suc [symmetric]
      split: list.splits)

lemma cursor_ok_readChar: "cursor_ok (readChar s)"
  by (simp add: cursor_ok_def readChar_def)

lemma unread_readChar: "cursor_ok s \<Longrightarrow> unread (readChar s) = tl (unread s)"
  by (simp add: cursor_ok_def unread_def readChar_def drop_Suc tl_drop)

lemma position_readChar: "cursor_ok s \<Longrightarrow> position (readChar s) = position s + 1"
  by (simp add: cursor_ok_def readChar_def)

lemma readChar_fields [simp]:
  "input (readChar s) = input s" "lastToken (readChar s) = lastToken s"
  "loc (readChar s) = loc s" "tokens (readChar s) = tokens s" "lines (readChar s) = lines s"
  by (simp_all add: readChar_def)

lemma cursor_ok_initial: "cursor_ok (readChar (initial inp))" "unread (readChar (initial inp)) = inp"
  by (simp_all add: cursor_ok_readChar) (simp add: unread_def readChar_def initial_def)

text \<open>
  One statement for the three scanning loops: a loop that reads on while the current
  character is in a class without the end marker stops at the first character outside
  the class.
\<close>

lemma scanning_loop:
  assumes loop: "\<And>s. L s = (if p (ch s) then L (readChar s) else s)"
    and nul: "\<not> p NUL"
    and ok: "cursor_ok s"
  shows "cursor_ok (L s) \<and> unread (L s) = dropWhile p (unread s)
       \<and> position (L s) = position s + length (takeWhile p (unread s))
       \<and> input (L s) = input s \<and> lastToken (L s) = lastToken s
       \<and> loc (L s) = loc s \<and> tokens (L s) = tokens s \<and> lines (L s) = lines s"
  using ok
proof (induction "unread s" arbitrary: s)
  case Nil
  then have "ch s = NUL" by (simp add: cursor_ok_ch)
  with nul have "L s = s" by (subst loop) simp
  with Nil show ?case by simp
next
  case (Cons c cs)
  from Cons.hyps(2) Cons.prems have c: "ch s = c" by (simp add: cursor_ok_ch flip: Cons.hyps(2))
  show ?case
  proof (cases "p c")
    case False
    with c have "L s = s" by (subst loop) simp
    with Cons False show ?thesis by (simp flip: Cons.hyps(2))
  next
    case True
    with c have L: "L s = L (readChar s)" by (subst loop) simp
    have cs: "cs = unread (readChar s)"
      using Cons.hyps(2) Cons.prems by (simp add: unread_readChar flip: Cons.hyps(2))
    from Cons.hyps(1) [OF cs cursor_ok_readChar] True Cons.prems show ?thesis
      by (simp add: L position_readChar flip: cs Cons.hyps(2))
  qed
qed

lemmas skipWhitespace_unread =
  scanning_loop [of skipWhitespace isWhitespace, OF skipWhitespace.simps]
lemmas readIdent_loop_unread =
  scanning_loop [of readIdent_loop isLetter, OF readIdent_loop.simps]
lemmas readInt_loop_unread =
  scanning_loop [of readInt_loop isNumber, OF readInt_loop.simps]


lemma not_class_NUL [simp]: "\<not> isWhitespace NUL" "\<not> isLetter NUL" "\<not> isNumber NUL"
  using isWhitespace_not_NUL isLetter_not_NUL isNumber_not_NUL by blast+

text \<open>
  \<open>getNextToken\<close> on the text still to be read: the token, and the text left after it.
  \<open>lastTok\<close> is \<open>lastToken\<close>.
\<close>

definition next_token :: "Token \<Rightarrow> string \<Rightarrow> Token \<times> string" where
  "next_token lastTok r0 =
     (let r = dropWhile isWhitespace r0; c = current r
      in if isLetter c then
           (let ident = takeWhile isLetter r
            in (case Keywords ident of Some keyword \<Rightarrow> keyword | None \<Rightarrow> createToken Ident ident,
                dropWhile isLetter r))
         else if isNumber c then
           (let digits = takeWhile isNumber r
            in (if tok_type lastTok = Some SingleQuote \<or> tok_type lastTok = Some DoubleQuote
                then createToken Ident digits else createToken Int' digits,
                dropWhile isNumber r))
         else (case switch_token c of
                 None \<Rightarrow> (createToken Illegal [c], r)
               | Some t \<Rightarrow> (t, tl r)))"

lemma slice_unread:
  assumes "position s' = position s + length (takeWhile p (unread s))" and "input s' = input s"
  shows "slice (input s') (position s) (position s') = takeWhile p (unread s)"
proof -
  have "take (length (takeWhile p (unread s))) (unread s) = takeWhile p (unread s)"
    by (metis takeWhile_eq_take)
  with assms show ?thesis by (simp add: slice_def unread_def)
qed

lemma cursor_ok_update [simp]:
  "cursor_ok (s\<lparr>lastToken := t\<rparr>) = cursor_ok s"
  "cursor_ok (s\<lparr>tokens := ts\<rparr>) = cursor_ok s"
  "cursor_ok (s\<lparr>lines := ls, loc := n\<rparr>) = cursor_ok s"
  by (simp_all add: cursor_ok_def)

lemma unread_update [simp]:
  "unread (s\<lparr>lastToken := t\<rparr>) = unread s"
  "unread (s\<lparr>tokens := ts\<rparr>) = unread s"
  "unread (s\<lparr>lines := ls, loc := n\<rparr>) = unread s"
  by (simp_all add: unread_def)

lemma Keywords_not_Illegal: "Keywords ident = Some keyword \<Longrightarrow> tok_type keyword \<noteq> Some Illegal"
  by (auto simp: Keywords_def createToken_def split: if_splits)

lemma switch_token_not_Illegal: "switch_token c = Some t \<Longrightarrow> tok_type t \<noteq> Some Illegal"
  by (auto simp: switch_token_def createToken_def split: if_splits)

lemma getNextToken_unread:
  assumes ok: "cursor_ok s" and step: "getNextToken s = (tok, s')"
  shows "next_token (lastToken s) (unread s) = (tok, unread s') \<and> cursor_ok s'
       \<and> input s' = input s \<and> loc s' = loc s \<and> tokens s' = tokens s \<and> lines s' = lines s
       \<and> lastToken s' = (if tok_type tok = Some Illegal then lastToken s else tok)"
proof -
  let ?w = "skipWhitespace s"
  let ?r = "dropWhile isWhitespace (unread s)"
  have w: "cursor_ok ?w" "unread ?w = ?r"
    "input ?w = input s" "lastToken ?w = lastToken s"
    "loc ?w = loc s" "tokens ?w = tokens s" "lines ?w = lines s"
    using skipWhitespace_unread [OF _ ok] by simp_all
  have c: "ch ?w = current ?r"
    using w(1,2) by (simp add: cursor_ok_ch)
  show ?thesis
  proof (cases "isLetter (ch ?w)")
    case True
    let ?i = "readIdent_loop ?w"
    have i: "cursor_ok ?i" "unread ?i = dropWhile isLetter ?r"
      "position ?i = position ?w + length (takeWhile isLetter (unread ?w))"
      "input ?i = input ?w" "lastToken ?i = lastToken ?w"
      "loc ?i = loc ?w" "tokens ?i = tokens ?w" "lines ?i = lines ?w"
      using readIdent_loop_unread [OF _ w(1)] w(2) by simp_all
    have sl: "slice (input ?i) (position ?w) (position ?i) = takeWhile isLetter ?r"
      using slice_unread [OF i(3,4)] w(2) by simp
    define t where "t = (case Keywords (takeWhile isLetter ?r) of
        Some keyword \<Rightarrow> keyword | None \<Rightarrow> createToken Ident (takeWhile isLetter ?r))"
    have legal: "tok_type t \<noteq> Some Illegal"
      by (auto simp: t_def createToken_def dest: Keywords_not_Illegal split: option.splits)
    have abs: "next_token (lastToken s) (unread s) = (t, dropWhile isLetter ?r)"
      using True c by (simp add: next_token_def Let_def t_def)
    have "getNextToken s = (t, ?i\<lparr>lastToken := t\<rparr>)"
      using True by (simp add: getNextToken_letter sl Let_def t_def cong: option.case_cong)
    with step have "tok = t" "s' = ?i\<lparr>lastToken := t\<rparr>" by auto
    with legal abs i w show ?thesis by simp
  next
    case notLetter: False
    show ?thesis
    proof (cases "isNumber (ch ?w)")
      case True
      let ?i = "readInt_loop ?w"
      have i: "cursor_ok ?i" "unread ?i = dropWhile isNumber ?r"
        "position ?i = position ?w + length (takeWhile isNumber (unread ?w))"
        "input ?i = input ?w" "lastToken ?i = lastToken s"
        "loc ?i = loc ?w" "tokens ?i = tokens ?w" "lines ?i = lines ?w"
        using readInt_loop_unread [OF _ w(1)] w(2,4) by simp_all
      have sl: "slice (input ?i) (position ?w) (position ?i) = takeWhile isNumber ?r"
        using slice_unread [OF i(3,4)] w(2) by simp
      define t where "t = (if tok_type (lastToken s) = Some SingleQuote
            \<or> tok_type (lastToken s) = Some DoubleQuote
          then createToken Ident (takeWhile isNumber ?r)
          else createToken Int' (takeWhile isNumber ?r))"
      have legal: "tok_type t \<noteq> Some Illegal"
        by (auto simp: t_def createToken_def)
      have abs: "next_token (lastToken s) (unread s) = (t, dropWhile isNumber ?r)"
        using True notLetter c by (simp add: next_token_def Let_def t_def)
      have "getNextToken s = (t, ?i\<lparr>lastToken := t\<rparr>)"
        using True notLetter
        by (simp add: getNextToken_number sl i(5) Let_def t_def cong: if_cong)
      with step have "tok = t" "s' = ?i\<lparr>lastToken := t\<rparr>" by auto
      with legal abs i w show ?thesis by simp
    next
      case False
      show ?thesis
      proof (cases "switch_token (ch ?w)")
        case None
        have abs: "next_token (lastToken s) (unread s) = (createToken Illegal [ch ?w], ?r)"
          using None notLetter False c by (simp add: next_token_def Let_def)
        have "getNextToken s = (createToken Illegal [ch ?w], ?w)"
          using None notLetter False by (simp add: getNextToken_single)
        with step have "tok = createToken Illegal [ch ?w]" "s' = ?w" by auto
        with abs w show ?thesis by (simp add: createToken_def)
      next
        case (Some t)
        have abs: "next_token (lastToken s) (unread s) = (t, tl ?r)"
          using Some notLetter False c by (simp add: next_token_def Let_def)
        have "getNextToken s = (t, (readChar ?w)\<lparr>lastToken := t\<rparr>)"
          using Some notLetter False by (simp add: getNextToken_single)
        with step have ts: "tok = t" "s' = (readChar ?w)\<lparr>lastToken := t\<rparr>" by auto
        have "cursor_ok (readChar ?w)" by (rule cursor_ok_readChar)
        moreover have "unread (readChar ?w) = tl ?r"
          using unread_readChar [OF w(1)] w(2) by simp
        ultimately show ?thesis
          using switch_token_not_Illegal [OF Some] abs w ts by simp
      qed
    qed
  qed
qed

subsection \<open>The four ways a token is read\<close>

lemma next_token_letter:
  "isLetter (current (dropWhile isWhitespace r)) \<Longrightarrow>
   next_token lastTok r =
     (case Keywords (takeWhile isLetter (dropWhile isWhitespace r)) of
        Some keyword \<Rightarrow> keyword
      | None \<Rightarrow> Token Ident (takeWhile isLetter (dropWhile isWhitespace r)),
      dropWhile isLetter (dropWhile isWhitespace r))"
  by (simp add: next_token_def Let_def createToken_def cong: option.case_cong)

lemma next_token_number:
  "\<not> isLetter (current (dropWhile isWhitespace r)) \<Longrightarrow>
   isNumber (current (dropWhile isWhitespace r)) \<Longrightarrow>
   next_token lastTok r =
     (Token (if tok_type lastTok = Some SingleQuote \<or> tok_type lastTok = Some DoubleQuote
             then Ident else Int')
        (takeWhile isNumber (dropWhile isWhitespace r)),
      dropWhile isNumber (dropWhile isWhitespace r))"
  by (simp add: next_token_def Let_def createToken_def)

lemma next_token_single:
  "\<not> isLetter (current (dropWhile isWhitespace r)) \<Longrightarrow>
   \<not> isNumber (current (dropWhile isWhitespace r)) \<Longrightarrow>
   next_token lastTok r =
     (case switch_token (current (dropWhile isWhitespace r)) of
        None \<Rightarrow> (Token Illegal [current (dropWhile isWhitespace r)], dropWhile isWhitespace r)
      | Some t \<Rightarrow> (t, tl (dropWhile isWhitespace r)))"
  by (simp add: next_token_def Let_def createToken_def cong: option.case_cong)

lemma next_token_shape:
  assumes "next_token lastTok r = (tok, r')"
  obtains
    (letters) "isLetter (current (dropWhile isWhitespace r))"
      "tok = (case Keywords (takeWhile isLetter (dropWhile isWhitespace r)) of
                Some keyword \<Rightarrow> keyword
              | None \<Rightarrow> Token Ident (takeWhile isLetter (dropWhile isWhitespace r)))"
      "r' = dropWhile isLetter (dropWhile isWhitespace r)"
  | (digits) "isNumber (current (dropWhile isWhitespace r))"
      "tok = Token (if tok_type lastTok = Some SingleQuote \<or> tok_type lastTok = Some DoubleQuote
                    then Ident else Int')
               (takeWhile isNumber (dropWhile isWhitespace r))"
      "r' = dropWhile isNumber (dropWhile isWhitespace r)"
  | (single) "\<not> isLetter (current (dropWhile isWhitespace r))"
      "\<not> isNumber (current (dropWhile isWhitespace r))"
      "switch_token (current (dropWhile isWhitespace r)) = Some tok"
      "r' = tl (dropWhile isWhitespace r)"
  | (unknown) "\<not> isLetter (current (dropWhile isWhitespace r))"
      "\<not> isNumber (current (dropWhile isWhitespace r))"
      "switch_token (current (dropWhile isWhitespace r)) = None"
      "tok = Token Illegal [current (dropWhile isWhitespace r)]"
      "r' = dropWhile isWhitespace r"
proof (cases "isLetter (current (dropWhile isWhitespace r))")
  case True
  from assms have "tok = fst (next_token lastTok r)" "r' = snd (next_token lastTok r)"
    by simp_all
  then show ?thesis
    unfolding next_token_letter [OF True] fst_conv snd_conv by (rule letters [OF True])
next
  case notLetter: False
  show ?thesis
  proof (cases "isNumber (current (dropWhile isWhitespace r))")
    case True
    from assms have "tok = fst (next_token lastTok r)" "r' = snd (next_token lastTok r)"
      by simp_all
    then show ?thesis
      unfolding next_token_number [OF notLetter True] fst_conv snd_conv by (rule digits [OF True])
  next
    case False
    show ?thesis
    proof (cases "switch_token (current (dropWhile isWhitespace r))")
      case None
      with assms have "tok = Token Illegal [current (dropWhile isWhitespace r)]"
        "r' = dropWhile isWhitespace r"
        by (auto simp: next_token_single [OF notLetter False])
      then show ?thesis by (rule unknown [OF notLetter False None])
    next
      case (Some t)
      with assms have "t = tok" "r' = tl (dropWhile isWhitespace r)"
        by (auto simp: next_token_single [OF notLetter False])
      with Some show ?thesis using single [OF notLetter False] by simp
    qed
  qed
qed

lemma letter_token_kind:
  "tok_type (case Keywords ident of Some keyword \<Rightarrow> keyword | None \<Rightarrow> Token Ident ident)
     \<in> {Some Print, Some Variable, Some Ident, None}"
  by (simp add: Keywords_def createToken_def)

lemma switch_token_kind:
  assumes "switch_token c = Some t"
  shows "(tok_type t = Some EoL \<longleftrightarrow> c = CHR ''!'') \<and> (tok_type t = Some Eof \<longleftrightarrow> c = NUL)
       \<and> tok_type t \<noteq> Some Illegal \<and> tok_type t \<noteq> Some Ident \<and> tok_type t \<noteq> Some Int'
       \<and> tok_type t \<noteq> None"
  using assms by (auto simp: switch_token_def createToken_def NUL_def split: if_splits)

lemma switch_token_code:
  "switch_token c \<noteq> None \<Longrightarrow> charCodeAt c \<in> {0, 33, 34, 39, 40, 41, 61}"
  by (auto simp: switch_token_def charCodeAt_def NUL_def split: if_splits)

lemma isWhitespace_code: "isWhitespace c \<Longrightarrow> charCodeAt c \<in> {9, 10, 13, 32}"
  by (auto simp: isWhitespace_def charCodeAt_def)

lemma isLetter_code: "isLetter c \<Longrightarrow> 65 \<le> charCodeAt c"
  by (auto simp: isLetter_def charCodeAt_def Let_def)

lemma isNumber_code: "isNumber c \<longleftrightarrow> 48 \<le> charCodeAt c \<and> charCodeAt c \<le> 57"
  by (auto simp: isNumber_def charCodeAt_def Let_def)

lemma class_not_mark:
  "isWhitespace c \<Longrightarrow> c \<noteq> CHR ''!''" "isLetter c \<Longrightarrow> c \<noteq> CHR ''!''" "isNumber c \<Longrightarrow> c \<noteq> CHR ''!''"
  using isWhitespace_code [of c] isLetter_code [of c] isNumber_code [of c]
  by (auto simp: charCodeAt_def)

lemma class_disjoint:
  "isWhitespace c \<Longrightarrow> \<not> isLetter c \<and> \<not> isNumber c \<and> switch_token c = None"
  "isLetter c \<Longrightarrow> \<not> isNumber c \<and> switch_token c = None"
  "isNumber c \<Longrightarrow> switch_token c = None"
proof -
  show "isWhitespace c \<Longrightarrow> \<not> isLetter c \<and> \<not> isNumber c \<and> switch_token c = None"
    using isWhitespace_code [of c] isLetter_code [of c] isNumber_code [of c] switch_token_code [of c]
    by fastforce
  show "isLetter c \<Longrightarrow> \<not> isNumber c \<and> switch_token c = None"
    using isLetter_code [of c] isNumber_code [of c] switch_token_code [of c]
    by fastforce
  show "isNumber c \<Longrightarrow> switch_token c = None"
    using isNumber_code [of c] switch_token_code [of c]
    by fastforce
qed

text \<open>The terminator characters of a text, up to its first end marker.\<close>

definition terminators :: "string \<Rightarrow> nat" where
  "terminators r = count_list (takeWhile (\<lambda>c. c \<noteq> NUL) r) CHR ''!''"

lemma terminators_simps [simp]:
  "terminators [] = 0"
  "terminators (c # cs) = (if c = NUL then 0 else if c = CHR ''!'' then Suc (terminators cs) else terminators cs)"
  by (simp_all add: terminators_def)

lemma terminators_dropWhile:
  assumes "\<And>c. p c \<Longrightarrow> c \<noteq> NUL \<and> c \<noteq> CHR ''!''"
  shows "terminators (dropWhile p r) = terminators r"
  using assms by (induction r) auto

lemma current_tl: "r \<noteq> [] \<Longrightarrow> r = current r # tl r"
  by (cases r) simp_all

lemma next_token_terminators:
  assumes "next_token lastTok r = (tok, r')" and "tok_type tok \<noteq> Some Illegal"
  shows "terminators r =
     (if tok_type tok = Some Eof then 0
      else if tok_type tok = Some EoL then Suc (terminators r') else terminators r')"
proof -
  let ?r = "dropWhile isWhitespace r"
  have r: "terminators r = terminators ?r"
    by (rule terminators_dropWhile [symmetric]) (simp add: isWhitespace_not_NUL class_not_mark)
  from assms(1) show ?thesis
  proof (cases rule: next_token_shape)
    case letters
    have "terminators r' = terminators ?r"
      unfolding letters(3)
      by (rule terminators_dropWhile) (simp add: isLetter_not_NUL class_not_mark)
    moreover have "tok_type tok \<noteq> Some Eof" "tok_type tok \<noteq> Some EoL"
      using letter_token_kind [of "takeWhile isLetter ?r"] letters(2) by auto
    ultimately show ?thesis using r by simp
  next
    case digits
    have "terminators r' = terminators ?r"
      unfolding digits(3)
      by (rule terminators_dropWhile) (simp add: isNumber_not_NUL class_not_mark)
    with digits(2) r show ?thesis by simp
  next
    case single
    show ?thesis
    proof (cases ?r)
      case Nil
      with single(3) switch_token_kind [OF single(3)] r show ?thesis by simp
    next
      case (Cons c cs)
      with single(3,4) switch_token_kind [of c tok] r show ?thesis by auto
    qed
  next
    case unknown
    with assms(2) show ?thesis by simp
  qed
qed

lemma next_token_suffix:
  assumes "next_token lastTok r = (tok, r')"
  shows "set r' \<subseteq> set r"
proof -
  have sub: "set (dropWhile isWhitespace r) \<subseteq> set r" by (auto dest: set_dropWhileD)
  from assms show ?thesis
  proof (cases rule: next_token_shape)
    case letters
    with sub show ?thesis by (auto dest: set_dropWhileD)
  next
    case digits
    with sub show ?thesis by (auto dest: set_dropWhileD)
  next
    case single
    with sub show ?thesis by (cases "dropWhile isWhitespace r") auto
  next
    case unknown
    with sub show ?thesis by simp
  qed
qed

lemma next_token_shorter:
  assumes "next_token lastTok r = (tok, r')"
    and "tok_type tok \<noteq> Some Illegal" and "tok_type tok \<noteq> Some Eof"
  shows "length r' < length r"
proof -
  let ?r = "dropWhile isWhitespace r"
  have le: "length ?r \<le> length r" by (rule length_dropWhile_le)
  from assms(1) show ?thesis
  proof (cases rule: next_token_shape)
    case letters
    then obtain c cs where "?r = c # cs" "isLetter c" by (cases ?r) auto
    with letters(3) length_dropWhile_le [of isLetter cs] le show ?thesis by simp
  next
    case digits
    then obtain c cs where "?r = c # cs" "isNumber c" by (cases ?r) auto
    with digits(3) length_dropWhile_le [of isNumber cs] le show ?thesis by simp
  next
    case single
    from switch_token_kind [OF single(3)] assms(3) have "current ?r \<noteq> NUL" by simp
    then obtain c cs where "?r = c # cs" by (cases ?r) simp_all
    with single(4) le show ?thesis by simp
  next
    case unknown
    with assms(2) show ?thesis by simp
  qed
qed

subsection \<open>The loop of the constructor\<close>

lemma lex_EoL:
  "getNextToken s = (tok, s') \<Longrightarrow> tok_type tok = Some EoL \<Longrightarrow>
   lex s line = lex (s'\<lparr>lines := lines s' @ [line], loc := loc s' + 1\<rparr>) []"
  by (subst lex.simps) simp

lemma lex_Illegal:
  "getNextToken s = (tok, s') \<Longrightarrow> tok_type tok = Some Illegal \<Longrightarrow>
   lex s line =
     Inl (Error (''Illegal token '' @ template (literal tok) @ '' at line '' @ decimal (loc s')))"
  by (subst lex.simps) simp

lemma lex_Eof:
  "getNextToken s = (tok, s') \<Longrightarrow> tok_type tok = Some Eof \<Longrightarrow> lex s line = Inr (s', line)"
  by (subst lex.simps) simp

lemma lex_token:
  "getNextToken s = (tok, s') \<Longrightarrow> tok_type tok \<noteq> Some EoL \<Longrightarrow>
   tok_type tok \<noteq> Some Illegal \<Longrightarrow> tok_type tok \<noteq> Some Eof \<Longrightarrow>
   lex s line = lex (s'\<lparr>tokens := tokens s' @ [tok]\<rparr>) (line @ [tok])"
  by (subst lex.simps) simp

lemma lex_lines:
  assumes "cursor_ok s" and "lex s line = Inr (s', trailing)"
  shows "\<exists>new added.
           lines s' = lines s @ new \<and> tokens s' = tokens s @ added
         \<and> concat new @ trailing = line @ added
         \<and> (\<forall>t \<in> set added. tok_type t \<noteq> Some EoL)
         \<and> loc s' = loc s + length new \<and> length new = terminators (unread s)"
  using assms
proof (induction s line rule: lex.induct)
  case (1 s line)
  obtain tok s1 where step: "getNextToken s = (tok, s1)" by (cases "getNextToken s")
  note abs = getNextToken_unread [OF "1.prems"(1) step]
  then have nt: "next_token (lastToken s) (unread s) = (tok, unread s1)" and ok1: "cursor_ok s1"
    and same: "loc s1 = loc s" "tokens s1 = tokens s" "lines s1 = lines s" by simp_all
  consider (eol) "tok_type tok = Some EoL" | (illegal) "tok_type tok = Some Illegal"
    | (eof) "tok_type tok = Some Eof"
    | (token) "tok_type tok \<noteq> Some EoL" "tok_type tok \<noteq> Some Illegal" "tok_type tok \<noteq> Some Eof"
    by blast
  then show ?case
  proof cases
    case eol
    let ?s2 = "s1\<lparr>lines := lines s1 @ [line], loc := loc s1 + 1\<rparr>"
    have run: "lex ?s2 [] = Inr (s', trailing)"
      using "1.prems"(2) lex_EoL [OF step eol] by simp
    have "cursor_ok ?s2" using ok1 by simp
    from "1.IH"(1) [OF step [symmetric] eol this run]
    obtain new added where IH: "lines s' = lines ?s2 @ new" "tokens s' = tokens ?s2 @ added"
      "concat new @ trailing = [] @ added" "\<forall>t \<in> set added. tok_type t \<noteq> Some EoL"
      "loc s' = loc ?s2 + length new" "length new = terminators (unread ?s2)"
      by blast
    have "terminators (unread s) = Suc (terminators (unread s1))"
      using next_token_terminators [OF nt] eol by simp
    with IH same show ?thesis
      by (intro exI [of _ "line # new"] exI [of _ added]) simp
  next
    case illegal
    with "1.prems"(2) lex_Illegal [OF step illegal] show ?thesis by simp
  next
    case eof
    with "1.prems"(2) lex_Eof [OF step eof] have "s' = s1" "trailing = line" by simp_all
    moreover have "terminators (unread s) = 0"
      using next_token_terminators [OF nt] eof by simp
    ultimately show ?thesis using same
      by (intro exI [of _ "[]"]) simp
  next
    case token
    let ?s2 = "s1\<lparr>tokens := tokens s1 @ [tok]\<rparr>"
    have run: "lex ?s2 (line @ [tok]) = Inr (s', trailing)"
      using "1.prems"(2) lex_token [OF step token] by simp
    have "cursor_ok ?s2" using ok1 by simp
    from "1.IH"(2) [OF step [symmetric] token this run]
    obtain new added where IH: "lines s' = lines ?s2 @ new" "tokens s' = tokens ?s2 @ added"
      "concat new @ trailing = (line @ [tok]) @ added" "\<forall>t \<in> set added. tok_type t \<noteq> Some EoL"
      "loc s' = loc ?s2 + length new" "length new = terminators (unread ?s2)"
      by blast
    have "terminators (unread s) = terminators (unread s1)"
      using next_token_terminators [OF nt] token by simp
    with IH same token(1) show ?thesis
      by (intro exI [of _ new] exI [of _ "tok # added"]) simp
  qed
qed

definition lexable :: "char \<Rightarrow> bool" where
  "lexable c = (isWhitespace c \<or> isLetter c \<or> isNumber c \<or> switch_token c \<noteq> None)"

lemma next_token_lexable:
  assumes "next_token lastTok r = (tok, r')" and "\<forall>c \<in> set r. lexable c"
  shows "tok_type tok \<noteq> Some Illegal"
  using assms(1)
proof (cases rule: next_token_shape)
  case letters
  with letter_token_kind [of "takeWhile isLetter (dropWhile isWhitespace r)"] show ?thesis by auto
next
  case digits
  then show ?thesis by simp
next
  case single
  with switch_token_kind [OF single(3)] show ?thesis by simp
next
  case unknown
  show ?thesis
  proof (cases "dropWhile isWhitespace r")
    case Nil
    with unknown(3) show ?thesis by (simp add: switch_token_def NUL_def)
  next
    case (Cons c cs)
    then have "c \<in> set r" by (metis list.set_intros(1) set_dropWhileD)
    moreover have "\<not> isWhitespace c" using Cons hd_dropWhile [of isWhitespace r] by simp
    ultimately show ?thesis using unknown(1,2,3) assms(2) Cons by (auto simp: lexable_def)
  qed
qed

lemma lex_total:
  assumes "cursor_ok s" and "\<forall>c \<in> set (unread s). lexable c"
  shows "\<exists>s' trailing. lex s line = Inr (s', trailing)"
  using assms
proof (induction s line rule: lex.induct)
  case (1 s line)
  obtain tok s1 where step: "getNextToken s = (tok, s1)" by (cases "getNextToken s")
  note abs = getNextToken_unread [OF "1.prems"(1) step]
  then have nt: "next_token (lastToken s) (unread s) = (tok, unread s1)" and ok1: "cursor_ok s1"
    by simp_all
  have legal: "tok_type tok \<noteq> Some Illegal"
    using next_token_lexable [OF nt "1.prems"(2)] .
  have lex1: "\<forall>c \<in> set (unread s1). lexable c"
    using next_token_suffix [OF nt] "1.prems"(2) by blast
  consider (eol) "tok_type tok = Some EoL" | (eof) "tok_type tok = Some Eof"
    | (token) "tok_type tok \<noteq> Some EoL" "tok_type tok \<noteq> Some Eof"
    by blast
  then show ?case
  proof cases
    case eol
    let ?s2 = "s1\<lparr>lines := lines s1 @ [line], loc := loc s1 + 1\<rparr>"
    have "cursor_ok ?s2" "\<forall>c \<in> set (unread ?s2). lexable c" using ok1 lex1 by simp_all
    from "1.IH"(1) [OF step [symmetric] eol this] show ?thesis
      by (simp add: lex_EoL [OF step eol])
  next
    case eof
    then show ?thesis by (simp add: lex_Eof [OF step eof])
  next
    case token
    let ?s2 = "s1\<lparr>tokens := tokens s1 @ [tok]\<rparr>"
    have "cursor_ok ?s2" "\<forall>c \<in> set (unread ?s2). lexable c" using ok1 lex1 by simp_all
    from "1.IH"(2) [OF step [symmetric] token(1) legal token(2) this] show ?thesis
      by (simp add: lex_token [OF step token(1) legal token(2)])
  qed
qed

lemma count_dropWhile:
  assumes "\<And>c. p c \<Longrightarrow> c \<noteq> y"
  shows "count_list (dropWhile p xs) y = count_list xs y"
  using assms by (induction xs) auto

lemma next_token_before_illegal:
  assumes nt: "next_token lastTok (pre @ c # post) = (tok, r')"
    and pre: "\<forall>x \<in> set pre. lexable x \<and> x \<noteq> NUL"
    and c: "\<not> lexable c"
  shows "if \<forall>x \<in> set pre. isWhitespace x then tok = Token Illegal [c]
         else tok_type tok \<noteq> Some Illegal \<and> tok_type tok \<noteq> Some Eof
            \<and> (\<exists>pre'. r' = pre' @ c # post \<and> (\<forall>x \<in> set pre'. lexable x \<and> x \<noteq> NUL)
                 \<and> count_list pre CHR ''!''
                    = (if tok_type tok = Some EoL then 1 else 0) + count_list pre' CHR ''!'')"
proof -
  let ?p = "dropWhile isWhitespace pre"
  from c have c': "\<not> isWhitespace c" "\<not> isLetter c" "\<not> isNumber c" "switch_token c = None"
    by (simp_all add: lexable_def)
  have r: "dropWhile isWhitespace (pre @ c # post) = ?p @ c # post"
    using c'(1) by (rule dropWhile_append3)
  have cnt: "count_list ?p CHR ''!'' = count_list pre CHR ''!''"
    by (rule count_dropWhile) (simp add: class_not_mark)
  show ?thesis
  proof (cases ?p)
    case Nil
    then have all: "\<forall>x \<in> set pre. isWhitespace x" by (simp add: dropWhile_eq_Nil_conv)
    from Nil r have r1: "dropWhile isWhitespace (pre @ c # post) = c # post" by simp
    from nt have "tok = Token Illegal [c]"
      by (cases rule: next_token_shape) (use c' r1 in simp_all)
    with all show ?thesis by simp
  next
    case (Cons x xs)
    then have notall: "\<not> (\<forall>x \<in> set pre. isWhitespace x)"
      by (simp add: dropWhile_eq_Nil_conv [symmetric])
    from Cons have "x \<in> set ?p" by simp
    then have "x \<in> set pre" by (rule set_dropWhileD)
    with pre have x: "lexable x" "x \<noteq> NUL" by simp_all
    have xw: "\<not> isWhitespace x" using hd_dropWhile [of isWhitespace pre] Cons by simp
    have sub: "set ?p \<subseteq> set pre" by (auto dest: set_dropWhileD)
    from Cons r have r1: "dropWhile isWhitespace (pre @ c # post) = x # xs @ c # post" by simp
    from nt have "tok_type tok \<noteq> Some Illegal \<and> tok_type tok \<noteq> Some Eof
            \<and> (\<exists>pre'. r' = pre' @ c # post \<and> (\<forall>x \<in> set pre'. lexable x \<and> x \<noteq> NUL)
                 \<and> count_list pre CHR ''!''
                    = (if tok_type tok = Some EoL then 1 else 0) + count_list pre' CHR ''!'')"
    proof (cases rule: next_token_shape)
      case letters
      have kind: "tok_type tok \<noteq> Some Illegal" "tok_type tok \<noteq> Some Eof" "tok_type tok \<noteq> Some EoL"
        using letter_token_kind [of "takeWhile isLetter (dropWhile isWhitespace (pre @ c # post))"]
          letters(2) by auto
      have "r' = dropWhile isLetter ?p @ c # post"
        using letters(3) r c'(2) by (simp add: dropWhile_append3)
      moreover have "set (dropWhile isLetter ?p) \<subseteq> set pre"
        using sub by (auto dest: set_dropWhileD)
      moreover have "count_list (dropWhile isLetter ?p) CHR ''!'' = count_list ?p CHR ''!''"
        by (rule count_dropWhile) (simp add: class_not_mark)
      ultimately show ?thesis using kind pre cnt by auto
    next
      case digits
      have "r' = dropWhile isNumber ?p @ c # post"
        using digits(3) r c'(3) by (simp add: dropWhile_append3)
      moreover have "set (dropWhile isNumber ?p) \<subseteq> set pre"
        using sub by (auto dest: set_dropWhileD)
      moreover have "count_list (dropWhile isNumber ?p) CHR ''!'' = count_list ?p CHR ''!''"
        by (rule count_dropWhile) (simp add: class_not_mark)
      ultimately show ?thesis using digits(2) pre cnt by auto
    next
      case single
      from single(3) r1 have sw: "switch_token x = Some tok" by simp
      from single(4) r1 have "r' = xs @ c # post" by simp
      moreover have "set xs \<subseteq> set pre" using sub Cons by auto
      moreover have "count_list pre CHR ''!'' = (if x = CHR ''!'' then 1 else 0) + count_list xs CHR ''!''"
        using cnt Cons by (auto split: if_splits)
      ultimately show ?thesis using switch_token_kind [OF sw] x(2) pre by auto
    next
      case unknown
      with r1 x(1) xw show ?thesis by (simp add: lexable_def)
    qed
    with notall show ?thesis by auto
  qed
qed

lemma lex_illegal:
  assumes "cursor_ok s" and "unread s = pre @ c # post"
    and "\<forall>x \<in> set pre. lexable x \<and> x \<noteq> NUL" and "\<not> lexable c"
  shows "lex s line =
     Inl (Error (''Illegal token '' @ [c] @ '' at line '' @ decimal (loc s + count_list pre CHR ''!'')))"
  using assms(1-3)
proof (induction s line arbitrary: pre rule: lex.induct)
  case (1 s line)
  obtain tok s1 where step: "getNextToken s = (tok, s1)" by (cases "getNextToken s")
  note abs = getNextToken_unread [OF "1.prems"(1) step]
  then have nt: "next_token (lastToken s) (pre @ c # post) = (tok, unread s1)"
    and ok1: "cursor_ok s1" and same: "loc s1 = loc s"
    using "1.prems"(2) by simp_all
  note shape = next_token_before_illegal [OF nt "1.prems"(3) assms(4)]
  show ?case
  proof (cases "\<forall>x \<in> set pre. isWhitespace x")
    case True
    with shape have tok: "tok = Token Illegal [c]" by simp
    have "count_list pre CHR ''!'' = 0"
      using True by (induction pre) (auto simp: class_not_mark)
    with tok same show ?thesis by (simp add: lex_Illegal [OF step])
  next
    case False
    with shape obtain pre' where kind: "tok_type tok \<noteq> Some Illegal" "tok_type tok \<noteq> Some Eof"
      and r': "unread s1 = pre' @ c # post" and pre': "\<forall>x \<in> set pre'. lexable x \<and> x \<noteq> NUL"
      and cnt: "count_list pre CHR ''!''
                    = (if tok_type tok = Some EoL then 1 else 0) + count_list pre' CHR ''!''"
      by auto
    show ?thesis
    proof (cases "tok_type tok = Some EoL")
      case True
      let ?s2 = "s1\<lparr>lines := lines s1 @ [line], loc := loc s1 + 1\<rparr>"
      have "cursor_ok ?s2" "unread ?s2 = pre' @ c # post" using ok1 r' by simp_all
      from "1.IH"(1) [OF step [symmetric] True this pre'] cnt True same show ?thesis
        by (simp add: lex_EoL [OF step True])
    next
      case False
      let ?s2 = "s1\<lparr>tokens := tokens s1 @ [tok]\<rparr>"
      have "cursor_ok ?s2" "unread ?s2 = pre' @ c # post" using ok1 r' by simp_all
      from "1.IH"(2) [OF step [symmetric] False kind this pre'] cnt False same show ?thesis
        by (simp add: lex_token [OF step False kind])
    qed
  qed
qed

subsection \<open>The tokens the loop receives\<close>

text \<open>
  The tokens that successive calls of \<open>getNextToken\<close> return to the loop of the
  constructor, up to the end of the input or the illegal token.
\<close>

function token_stream :: "Tokenizer \<Rightarrow> Token list" where
  "token_stream s =
     (case getNextToken s of (tok, s') \<Rightarrow>
        if tok_type tok = Some Illegal \<or> tok_type tok = Some Eof then []
        else tok # token_stream s')"
  by pat_completeness auto
termination
proof (relation "measure remaining")
  show "wf (measure remaining)" by simp
next
  fix s :: Tokenizer and x y
  assume "(x, y) = getNextToken s" and "\<not> (tok_type x = Some Illegal \<or> tok_type x = Some Eof)"
  then have "remaining y < remaining s"
    using remaining_getNextToken [of s x y] by simp
  then show "(y, s) \<in> measure remaining" by simp
qed

declare token_stream.simps [simp del]

text \<open>The same on the text still to be read.\<close>

function stream :: "Token \<Rightarrow> string \<Rightarrow> Token list" where
  "stream lastTok r =
     (case next_token lastTok r of (tok, r') \<Rightarrow>
        if tok_type tok = Some Illegal \<or> tok_type tok = Some Eof then []
        else tok # stream tok r')"
  by pat_completeness auto
termination
proof (relation "measure (\<lambda>(lastTok, r). length r)")
  show "wf (measure (\<lambda>(lastTok, r). length r))" by simp
next
  fix lastTok :: Token and r :: string and x y
  assume "(x, y) = next_token lastTok r" and "\<not> (tok_type x = Some Illegal \<or> tok_type x = Some Eof)"
  then have "length y < length r"
    using next_token_shorter [of lastTok r x y] by simp
  then show "((x, y), lastTok, r) \<in> measure (\<lambda>(lastTok, r). length r)" by simp
qed

declare stream.simps [simp del]

lemma token_stream_unread:
  "cursor_ok s \<Longrightarrow> token_stream s = stream (lastToken s) (unread s)"
proof (induction s rule: token_stream.induct)
  case (1 s)
  obtain tok s1 where step: "getNextToken s = (tok, s1)" by (cases "getNextToken s")
  note abs = getNextToken_unread [OF "1.prems" step]
  then have nt: "next_token (lastToken s) (unread s) = (tok, unread s1)" and ok1: "cursor_ok s1"
    and last: "lastToken s1 = (if tok_type tok = Some Illegal then lastToken s else tok)"
    by simp_all
  show ?case
  proof (cases "tok_type tok = Some Illegal \<or> tok_type tok = Some Eof")
    case True
    then show ?thesis
      by (subst token_stream.simps, subst stream.simps) (simp add: step nt)
  next
    case False
    from "1.IH" [OF step [symmetric] False ok1] last False
    have "token_stream s1 = stream tok (unread s1)" by simp
    with False show ?thesis
      by (subst token_stream.simps, subst stream.simps) (simp add: step nt)
  qed
qed

text \<open>The tokens the constructor keeps are the ones it received, but for the terminators.\<close>

lemma lex_tokens:
  assumes "cursor_ok s" and "lex s line = Inr (s', trailing)"
  shows "tokens s' = tokens s @ filter (\<lambda>t. tok_type t \<noteq> Some EoL) (token_stream s)"
  using assms
proof (induction s line rule: lex.induct)
  case (1 s line)
  obtain tok s1 where step: "getNextToken s = (tok, s1)" by (cases "getNextToken s")
  note abs = getNextToken_unread [OF "1.prems"(1) step]
  then have ok1: "cursor_ok s1" and same: "tokens s1 = tokens s" by simp_all
  consider (eol) "tok_type tok = Some EoL" | (illegal) "tok_type tok = Some Illegal"
    | (eof) "tok_type tok = Some Eof"
    | (token) "tok_type tok \<noteq> Some EoL" "tok_type tok \<noteq> Some Illegal" "tok_type tok \<noteq> Some Eof"
    by blast
  then show ?case
  proof cases
    case eol
    let ?s2 = "s1\<lparr>lines := lines s1 @ [line], loc := loc s1 + 1\<rparr>"
    have run: "lex ?s2 [] = Inr (s', trailing)"
      using "1.prems"(2) lex_EoL [OF step eol] by simp
    have ok2: "cursor_ok ?s2" using ok1 by simp
    have "token_stream ?s2 = token_stream s1"
      using ok1 ok2 by (simp add: token_stream_unread)
    with "1.IH"(1) [OF step [symmetric] eol ok2 run] same eol show ?thesis
      by (subst token_stream.simps) (simp add: step)
  next
    case illegal
    with "1.prems"(2) lex_Illegal [OF step illegal] show ?thesis by simp
  next
    case eof
    with "1.prems"(2) lex_Eof [OF step eof] same show ?thesis
      by (subst token_stream.simps) (simp add: step)
  next
    case token
    let ?s2 = "s1\<lparr>tokens := tokens s1 @ [tok]\<rparr>"
    have run: "lex ?s2 (line @ [tok]) = Inr (s', trailing)"
      using "1.prems"(2) lex_token [OF step token] by simp
    have ok2: "cursor_ok ?s2" using ok1 by simp
    have "token_stream ?s2 = token_stream s1"
      using ok1 ok2 by (simp add: token_stream_unread)
    with "1.IH"(2) [OF step [symmetric] token ok2 run] same token show ?thesis
      by (subst token_stream.simps) (simp add: step)
  qed
qed

text \<open>The lines the constructor seals are as many as the terminators it received.\<close>

lemma lex_sealed:
  assumes "cursor_ok s" and "lex s line = Inr (s', trailing)"
  shows "length (lines s')
     = length (lines s) + length (filter (\<lambda>t. tok_type t = Some EoL) (token_stream s))"
  using assms
proof (induction s line rule: lex.induct)
  case (1 s line)
  obtain tok s1 where step: "getNextToken s = (tok, s1)" by (cases "getNextToken s")
  note abs = getNextToken_unread [OF "1.prems"(1) step]
  then have ok1: "cursor_ok s1" and same: "lines s1 = lines s" by simp_all
  consider (eol) "tok_type tok = Some EoL" | (illegal) "tok_type tok = Some Illegal"
    | (eof) "tok_type tok = Some Eof"
    | (token) "tok_type tok \<noteq> Some EoL" "tok_type tok \<noteq> Some Illegal" "tok_type tok \<noteq> Some Eof"
    by blast
  then show ?case
  proof cases
    case eol
    let ?s2 = "s1\<lparr>lines := lines s1 @ [line], loc := loc s1 + 1\<rparr>"
    have run: "lex ?s2 [] = Inr (s', trailing)"
      using "1.prems"(2) lex_EoL [OF step eol] by simp
    have ok2: "cursor_ok ?s2" using ok1 by simp
    have "token_stream ?s2 = token_stream s1"
      using ok1 ok2 by (simp add: token_stream_unread)
    with "1.IH"(1) [OF step [symmetric] eol ok2 run] same eol show ?thesis
      by (subst token_stream.simps) (simp add: step)
  next
    case illegal
    with "1.prems"(2) lex_Illegal [OF step illegal] show ?thesis by simp
  next
    case eof
    with "1.prems"(2) lex_Eof [OF step eof] same show ?thesis
      by (subst token_stream.simps) (simp add: step)
  next
    case token
    let ?s2 = "s1\<lparr>tokens := tokens s1 @ [tok]\<rparr>"
    have run: "lex ?s2 (line @ [tok]) = Inr (s', trailing)"
      using "1.prems"(2) lex_token [OF step token] by simp
    have ok2: "cursor_ok ?s2" using ok1 by simp
    have "token_stream ?s2 = token_stream s1"
      using ok1 ok2 by (simp add: token_stream_unread)
    with "1.IH"(2) [OF step [symmetric] token ok2 run] same token show ?thesis
      by (subst token_stream.simps) (simp add: step)
  qed
qed

text \<open>A terminator token is the token of the character \<open>!\<close>.\<close>

lemma next_token_EoL:
  assumes "next_token lastTok r = (tok, r')" and "tok_type tok = Some EoL"
  shows "tok = Token EoL ''!''"
  using assms(1)
proof (cases rule: next_token_shape)
  case letters
  with letter_token_kind [of "takeWhile isLetter (dropWhile isWhitespace r)"] assms(2)
  show ?thesis by auto
next
  case digits
  with assms(2) show ?thesis by (simp split: if_splits)
next
  case single
  with switch_token_kind [OF single(3)] assms(2)
  show ?thesis by (simp add: switch_token_def createToken_def)
next
  case unknown
  with assms(2) show ?thesis by simp
qed

text \<open>
  The tokens the loop receives are cut at the terminators: each line the constructor
  seals is followed by its terminator, and the tokens after the last terminator are the
  accumulator it is left with.
\<close>

lemma lex_split:
  assumes "cursor_ok s" and "lex s line = Inr (s', trailing)"
  shows "\<exists>new. lines s' = lines s @ new
         \<and> line @ token_stream s = concat (map (\<lambda>l. l @ [Token EoL ''!'']) new) @ trailing"
  using assms
proof (induction s line rule: lex.induct)
  case (1 s line)
  obtain tok s1 where step: "getNextToken s = (tok, s1)" by (cases "getNextToken s")
  note abs = getNextToken_unread [OF "1.prems"(1) step]
  then have nt: "next_token (lastToken s) (unread s) = (tok, unread s1)"
    and ok1: "cursor_ok s1" and same: "lines s1 = lines s" by simp_all
  consider (eol) "tok_type tok = Some EoL" | (illegal) "tok_type tok = Some Illegal"
    | (eof) "tok_type tok = Some Eof"
    | (token) "tok_type tok \<noteq> Some EoL" "tok_type tok \<noteq> Some Illegal" "tok_type tok \<noteq> Some Eof"
    by blast
  then show ?case
  proof cases
    case eol
    let ?s2 = "s1\<lparr>lines := lines s1 @ [line], loc := loc s1 + 1\<rparr>"
    have run: "lex ?s2 [] = Inr (s', trailing)"
      using "1.prems"(2) lex_EoL [OF step eol] by simp
    have ok2: "cursor_ok ?s2" using ok1 by simp
    have ts: "token_stream ?s2 = token_stream s1"
      using ok1 ok2 by (simp add: token_stream_unread)
    have tok: "tok = Token EoL ''!''" using nt eol by (rule next_token_EoL)
    have here: "token_stream s = tok # token_stream s1"
      using eol by (subst token_stream.simps) (simp add: step)
    from "1.IH"(1) [OF step [symmetric] eol ok2 run] ts
    obtain new where IH: "lines s' = (lines s1 @ [line]) @ new"
      "token_stream s1 = concat (map (\<lambda>l. l @ [Token EoL ''!'']) new) @ trailing"
      by auto
    show ?thesis
      using IH same here tok by (intro exI [of _ "line # new"]) simp
  next
    case illegal
    with "1.prems"(2) lex_Illegal [OF step illegal] show ?thesis by simp
  next
    case eof
    have "token_stream s = []"
      using eof by (subst token_stream.simps) (simp add: step)
    with "1.prems"(2) lex_Eof [OF step eof] same show ?thesis
      by (intro exI [of _ "[]"]) simp
  next
    case token
    let ?s2 = "s1\<lparr>tokens := tokens s1 @ [tok]\<rparr>"
    have run: "lex ?s2 (line @ [tok]) = Inr (s', trailing)"
      using "1.prems"(2) lex_token [OF step token] by simp
    have ok2: "cursor_ok ?s2" using ok1 by simp
    have ts: "token_stream ?s2 = token_stream s1"
      using ok1 ok2 by (simp add: token_stream_unread)
    have here: "token_stream s = tok # token_stream s1"
      using token by (subst token_stream.simps) (simp add: step)
    from "1.IH"(2) [OF step [symmetric] token ok2 run] ts
    obtain new where IH: "lines s' = lines s1 @ new"
      "(line @ [tok]) @ token_stream s1 = concat (map (\<lambda>l. l @ [Token EoL ''!'']) new) @ trailing"
      by auto
    show ?thesis
      using IH same here by (intro exI [of _ new]) simp
  qed
qed

lemma after_last_terminator:
  assumes "\<forall>t \<in> set trailing. tok_type t \<noteq> Some EoL"
  shows "rev (takeWhile (\<lambda>t. tok_type t \<noteq> Some EoL)
           (rev (concat (map (\<lambda>line. line @ [Token EoL ''!'']) ls) @ trailing))) = trailing"
proof -
  define sealed where "sealed = concat (map (\<lambda>line. line @ [Token EoL ''!'']) ls)"
  have e: "takeWhile (\<lambda>t. tok_type t \<noteq> Some EoL) (rev sealed) = []"
  proof (cases ls rule: rev_cases)
    case Nil
    then show ?thesis by (simp add: sealed_def)
  next
    case (snoc ls' l)
    then show ?thesis by (simp add: sealed_def)
  qed
  have "takeWhile (\<lambda>t. tok_type t \<noteq> Some EoL) (rev trailing @ rev sealed)
      = rev trailing @ takeWhile (\<lambda>t. tok_type t \<noteq> Some EoL) (rev sealed)"
    by (rule takeWhile_append2) (use assms in simp)
  then have "takeWhile (\<lambda>t. tok_type t \<noteq> Some EoL) (rev trailing @ rev sealed) = rev trailing"
    by (simp only: e append_Nil2)
  then have "takeWhile (\<lambda>t. tok_type t \<noteq> Some EoL) (rev (sealed @ trailing)) = rev trailing"
    by (simp only: rev_append)
  then have "rev (takeWhile (\<lambda>t. tok_type t \<noteq> Some EoL) (rev (sealed @ trailing))) = trailing"
    by (simp only: rev_rev_ident)
  then show ?thesis by (simp only: sealed_def)
qed

subsection \<open>Lines, terminators and illegal characters\<close>

text \<open>
  Claim C7.  When the constructor returns, the tokens the loop received are the lines, in
  order, each followed by the terminator token that sealed it, and then the tokens read
  after the last terminator: these are the unsealed rest, which is in no line.  No line
  and no unsealed rest holds a token of kind \<open>EoL\<close>, so the terminators cut the tokens
  received in one way only.  The tokens the tokenizer keeps are those of the lines
  followed by the unsealed rest; and there is one line for each terminator token the
  loop received, which is one for each terminator character of the input before an
  end-marker character, and is the line count.  An input of characters the tokenizer
  knows is tokenized without an error, whether or not its last statement is terminated.
\<close>

theorem lines_sealed_at_terminators:
  "(constructor inp = Inr (s, trailing) \<longrightarrow>
        token_stream (readChar (initial inp))
          = concat (map (\<lambda>line. line @ [Token EoL ''!'']) (lines s)) @ trailing
      \<and> (\<forall>line \<in> set (lines s). \<forall>t \<in> set line. tok_type t \<noteq> Some EoL)
      \<and> (\<forall>t \<in> set trailing. tok_type t \<noteq> Some EoL)
      \<and> trailing = rev (takeWhile (\<lambda>t. tok_type t \<noteq> Some EoL)
                          (rev (token_stream (readChar (initial inp)))))
      \<and> tokens s = concat (lines s) @ trailing
      \<and> length (lines s)
          = length (filter (\<lambda>t. tok_type t = Some EoL) (token_stream (readChar (initial inp))))
      \<and> length (lines s) = count_list (takeWhile (\<lambda>c. c \<noteq> NUL) inp) CHR ''!''
      \<and> loc s = length (lines s))
   \<and> ((\<forall>c \<in> set inp. lexable c) \<longrightarrow> (\<exists>s trailing. constructor inp = Inr (s, trailing)))"
proof (intro conjI impI)
  assume run: "constructor inp = Inr (s, trailing)"
  let ?s0 = "readChar (initial inp)"
  have start: "lines ?s0 = []" "tokens ?s0 = []" "loc ?s0 = 0"
    by (simp_all add: initial_def)
  from run have lexed: "lex ?s0 [] = Inr (s, trailing)" by (simp add: constructor_def)
  from lex_split [OF cursor_ok_initial(1) lexed] start
  show split: "token_stream (readChar (initial inp))
      = concat (map (\<lambda>line. line @ [Token EoL ''!'']) (lines s)) @ trailing"
    by simp
  from lex_sealed [OF cursor_ok_initial(1) lexed] start
  show "length (lines s)
      = length (filter (\<lambda>t. tok_type t = Some EoL) (token_stream (readChar (initial inp))))"
    by simp
  from lex_lines [OF cursor_ok_initial(1) lexed] start cursor_ok_initial(2) [of inp]
  obtain added where inv: "tokens s = added" "concat (lines s) @ trailing = added"
    "\<forall>t \<in> set added. tok_type t \<noteq> Some EoL" "loc s = length (lines s)"
    "length (lines s) = terminators inp"
    by auto
  from inv(2,3) have no: "\<forall>t \<in> set (concat (lines s) @ trailing). tok_type t \<noteq> Some EoL"
    by simp
  from no show "\<forall>line \<in> set (lines s). \<forall>t \<in> set line. tok_type t \<noteq> Some EoL" by auto
  from no show rest: "\<forall>t \<in> set trailing. tok_type t \<noteq> Some EoL" by auto
  from after_last_terminator [OF rest, of "lines s"]
  show "trailing = rev (takeWhile (\<lambda>t. tok_type t \<noteq> Some EoL)
      (rev (token_stream (readChar (initial inp)))))"
    by (simp only: split)
  from inv(1,2) show "tokens s = concat (lines s) @ trailing" by simp
  from inv(5) show "length (lines s) = count_list (takeWhile (\<lambda>c. c \<noteq> NUL) inp) CHR ''!''"
    by (simp add: terminators_def)
  from inv(4) show "loc s = length (lines s)" .
next
  assume "\<forall>c \<in> set inp. lexable c"
  then have "\<forall>c \<in> set (unread (readChar (initial inp))). lexable c"
    by (simp add: cursor_ok_initial)
  from lex_total [OF cursor_ok_initial(1) this]
  show "\<exists>s trailing. constructor inp = Inr (s, trailing)"
    by (simp add: constructor_def)
qed

theorem lines_sealed_at_terminators_witness:
  "\<exists>s. constructor ''a! b=1'' = Inr (s, [Token Ident ''b'', Token AssignOrEqual ''='', Token Int' ''1''])
       \<and> lines s = [[Token Ident ''a'']]
       \<and> token_stream (readChar (initial ''a! b=1''))
           = [Token Ident ''a'', Token EoL ''!'', Token Ident ''b'', Token AssignOrEqual ''='',
              Token Int' ''1'']
       \<and> tokens s = [Token Ident ''a'', Token Ident ''b'', Token AssignOrEqual ''='', Token Int' ''1'']
       \<and> loc s = 1"
proof -
  have "\<forall>c \<in> set ''a! b=1''. lexable c"
    by (simp add: lexable_def isWhitespace_def isLetter_def isNumber_def switch_token_def
        charCodeAt_def)
  then obtain s trailing where run: "constructor ''a! b=1'' = Inr (s, trailing)"
    using lines_sealed_at_terminators [of "''a! b=1''"] by blast
  have "map_sum id (\<lambda>(s, trailing). (lines s, trailing)) (constructor ''a! b=1'')
      = Inr ([[Token Ident ''a'']], [Token Ident ''b'', Token AssignOrEqual ''='', Token Int' ''1''])"
    by (simp add: lexer_eval interpreter_eval)
  with run have ev: "lines s = [[Token Ident ''a'']]"
    "trailing = [Token Ident ''b'', Token AssignOrEqual ''='', Token Int' ''1'']"
    by simp_all
  from run lines_sealed_at_terminators [of "''a! b=1''" s trailing]
  have "tokens s = concat (lines s) @ trailing" "loc s = length (lines s)"
    "token_stream (readChar (initial ''a! b=1''))
       = concat (map (\<lambda>line. line @ [Token EoL ''!'']) (lines s)) @ trailing"
    by blast+
  with ev run show ?thesis by simp
qed

text \<open>
  Claim C6, as amended.  Let a character \<open>c\<close> of the input be none the tokenizer knows:
  no white space, letter or digit, none of the six punctuation characters and not the
  end-marker character, which are the cases of the \<open>switch\<close> of \<open>getNextToken\<close>.
  Let every character before it be one the tokenizer knows, and none the end marker, so
  that the loop reaches \<open>c\<close>.  Then the constructor throws the error whose message names
  \<open>c\<close> and the number of terminators read so far, and the program writes nothing at
  all.
\<close>

theorem illegal_character_aborts:
  assumes "inp = pre @ c # post"
    and "\<forall>x \<in> set pre. lexable x \<and> x \<noteq> NUL"
    and "\<not> isWhitespace c" and "switch_token c = None" and "\<not> isLetter c" and "\<not> isNumber c"
  shows "new_Tokenizer inp
           = Inl (Error (''Illegal token '' @ [c] @ '' at line '' @ decimal (count_list pre CHR ''!'')))
       \<and> program inp
           = ([], Some (Error (''Illegal token '' @ [c] @ '' at line ''
                                 @ decimal (count_list pre CHR ''!''))))"
proof -
  have c: "\<not> lexable c" using assms(3-6) by (simp add: lexable_def)
  have "unread (readChar (initial inp)) = pre @ c # post"
    using assms(1) by (simp add: cursor_ok_initial)
  from lex_illegal [OF cursor_ok_initial(1) this assms(2) c, of "[]"]
  have "constructor inp
      = Inl (Error (''Illegal token '' @ [c] @ '' at line '' @ decimal (count_list pre CHR ''!'')))"
    by (simp add: constructor_def initial_def)
  then show ?thesis by (simp add: new_Tokenizer_def program_def)
qed

theorem illegal_character_aborts_witness:
  "program ''print(a)! b! @ print(c)!'' = ([], Some (Error ''Illegal token @ at line 2''))"
proof -
  have "decimal (count_list ''print(a)! b! '' CHR ''!'') = ''2''"
    by (simp add: decimal.simps digit_char_def)
  moreover have "\<forall>x \<in> set ''print(a)! b! ''. lexable x \<and> x \<noteq> NUL"
    by (simp add: lexable_def isWhitespace_def isLetter_def isNumber_def switch_token_def
        charCodeAt_def NUL_def)
  ultimately show ?thesis
    using illegal_character_aborts [of "''print(a)! b! @ print(c)!''" "''print(a)! b! ''"
        "CHR ''@''" "'' print(c)!''"]
    by (simp add: isWhitespace_def isLetter_def isNumber_def switch_token_def charCodeAt_def NUL_def)
qed

text \<open>
  Against claim C6 as stated: an end-marker character in the text is none of the six
  punctuation characters, and no white space, letter or digit; the loop reaches it in the
  script \<open>print(a)!\<close> followed by it.  The tokenizer takes it for the end of the input:
  no error is thrown, and the statement before it is run.
\<close>

theorem end_marker_counterexample:
  "program (''print(a)!'' @ [CHR 0x00])
     = ([Str ''lines'',
         Inspect [[Token Print ''print'', Token ParentesesE ''('', Token Ident ''a'',
                   Token ParentesesD '')'']],
         Str ''a''], None)"
  by (simp add: lexer_eval interpreter_eval)

subsection \<open>Runs of digits\<close>

text \<open>The kind of the token of a run of digits, after the token \<open>lastTok\<close>.\<close>

definition digit_kind :: "Token \<Rightarrow> TokenItem" where
  "digit_kind lastTok =
     (if tok_type lastTok = Some SingleQuote \<or> tok_type lastTok = Some DoubleQuote
      then Ident else Int')"

lemma next_token_digits:
  assumes "\<forall>c \<in> set ws. isWhitespace c" and "digits \<noteq> []" and "\<forall>c \<in> set digits. isNumber c"
    and "post = [] \<or> \<not> isNumber (hd post)"
  shows "next_token lastTok (ws @ digits @ post) = (Token (digit_kind lastTok) digits, post)"
proof -
  from assms(2,3) obtain d ds where digits: "digits = d # ds" and d: "isNumber d"
    by (cases digits) auto
  from d have dw: "\<not> isWhitespace d" "\<not> isLetter d"
    using class_disjoint(1,2) [of d] by auto
  have r: "dropWhile isWhitespace (ws @ digits @ post) = digits @ post"
    using assms(1) dw(1) digits by (simp add: dropWhile_append2)
  have post: "takeWhile isNumber post = []" "dropWhile isNumber post = post"
    using assms(4) by (cases post; simp)+
  have "takeWhile isNumber (digits @ post) = digits" "dropWhile isNumber (digits @ post) = post"
    using assms(3) post by (simp_all add: takeWhile_append2 dropWhile_append2)
  moreover have "current (digits @ post) = d" using digits by simp
  ultimately show ?thesis
    using next_token_number [of "ws @ digits @ post" lastTok] r d dw(2)
    by (simp add: digit_kind_def)
qed

lemma next_token_blank:
  assumes "\<forall>c \<in> set ws. isWhitespace c"
  shows "next_token lastTok ws = (Token Eof ''eof'', [])"
proof -
  from assms have e: "dropWhile isWhitespace ws = []" by simp
  show ?thesis
    unfolding next_token_def Let_def e
    by (simp add: switch_token_def NUL_def createToken_def isLetter_def isNumber_def charCodeAt_def)
qed

lemma last_dropWhile: "dropWhile p xs \<noteq> [] \<Longrightarrow> last (dropWhile p xs) = last xs"
  by (metis last_appendR takeWhile_dropWhile_id)

lemma last_tl': "tl xs \<noteq> [] \<Longrightarrow> last (tl xs) = last xs"
  by (cases xs) auto

lemma dropWhile_last_not:
  "\<not> q (last xs) \<Longrightarrow> dropWhile p xs = [] \<or> \<not> q (last (dropWhile p xs))"
  by (metis last_dropWhile)

lemma tl_last_not: "\<not> q (last xs) \<Longrightarrow> tl xs = [] \<or> \<not> q (last (tl xs))"
  by (metis last_tl')

lemma next_token_append:
  assumes pre: "\<forall>x \<in> set pre. lexable x \<and> x \<noteq> NUL"
    and notall: "\<not> (\<forall>x \<in> set pre. isWhitespace x)"
    and lastpre: "\<not> isNumber (last pre)"
    and d: "isNumber d"
  shows "\<exists>tok pre'. next_token lastTok pre = (tok, pre')
           \<and> next_token lastTok (pre @ d # rest) = (tok, pre' @ d # rest)
           \<and> tok_type tok \<noteq> Some Illegal \<and> tok_type tok \<noteq> Some Eof
           \<and> (\<forall>x \<in> set pre'. lexable x \<and> x \<noteq> NUL)
           \<and> (pre' = [] \<or> \<not> isNumber (last pre'))
           \<and> length pre' < length pre"
proof -
  let ?p = "dropWhile isWhitespace pre"
  from d have dw: "\<not> isWhitespace d" "\<not> isLetter d"
    using class_disjoint(1,2) [of d] by auto
  from notall obtain x xs where p: "?p = x # xs"
    by (cases ?p) (auto simp: dropWhile_eq_Nil_conv)
  then have "x \<in> set ?p" by simp
  then have "x \<in> set pre" by (rule set_dropWhileD)
  with pre have x: "lexable x" "x \<noteq> NUL" by simp_all
  have xw: "\<not> isWhitespace x" using hd_dropWhile [of isWhitespace pre] p by simp
  have r: "dropWhile isWhitespace (pre @ d # rest) = ?p @ d # rest"
    using dw(1) by (rule dropWhile_append3)
  have lastp: "last ?p = last pre" by (metis last_dropWhile list.distinct(1) p)
  have cur: "current ?p = x" "current (?p @ d # rest) = x" using p by simp_all
  have "\<exists>tok pre'. next_token lastTok pre = (tok, pre')
           \<and> next_token lastTok (pre @ d # rest) = (tok, pre' @ d # rest)
           \<and> (pre' = [] \<or> \<not> isNumber (last pre'))"
  proof (cases "isLetter x")
    case True
    have "takeWhile isLetter (?p @ d # rest) = takeWhile isLetter ?p"
      "dropWhile isLetter (?p @ d # rest) = dropWhile isLetter ?p @ d # rest"
      using dw(2) by (simp_all add: takeWhile_tail dropWhile_append3)
    moreover have "dropWhile isLetter ?p = [] \<or> \<not> isNumber (last (dropWhile isLetter ?p))"
      using lastp lastpre dropWhile_last_not [of isNumber ?p isLetter] by metis
    ultimately show ?thesis
      using next_token_letter [of pre lastTok] next_token_letter [of "pre @ d # rest" lastTok]
        True cur r
      by (simp cong: option.case_cong)
  next
    case notLetter: False
    show ?thesis
    proof (cases "isNumber x")
      case True
      have "last ?p \<in> set ?p" using p by (simp del: dropWhile_eq_Nil_conv)
      with lastp lastpre have ex: "\<exists>y \<in> set ?p. \<not> isNumber y" by auto
      then have "takeWhile isNumber (?p @ d # rest) = takeWhile isNumber ?p"
        "dropWhile isNumber (?p @ d # rest) = dropWhile isNumber ?p @ d # rest"
        by (auto simp: takeWhile_append1 dropWhile_append1)
      moreover have "dropWhile isNumber ?p = [] \<or> \<not> isNumber (last (dropWhile isNumber ?p))"
        using lastp lastpre dropWhile_last_not [of isNumber ?p isNumber] by metis
      ultimately show ?thesis
        using next_token_number [of pre lastTok] next_token_number [of "pre @ d # rest" lastTok]
          True notLetter cur r
        by simp
    next
      case False
      with x(1) xw notLetter obtain t where t: "switch_token x = Some t"
        by (auto simp: lexable_def)
      have "tl ?p = [] \<or> \<not> isNumber (last (tl ?p))"
        using lastp lastpre tl_last_not [of isNumber ?p] by metis
      moreover have "tl (?p @ d # rest) = tl ?p @ d # rest" using p by simp
      ultimately show ?thesis
        using next_token_single [of pre lastTok] next_token_single [of "pre @ d # rest" lastTok]
          False notLetter cur r t
        by simp
    qed
  qed
  then obtain tok pre' where nt: "next_token lastTok pre = (tok, pre')"
    and ext: "next_token lastTok (pre @ d # rest) = (tok, pre' @ d # rest)"
    and lastpre': "pre' = [] \<or> \<not> isNumber (last pre')"
    by blast
  have legal: "tok_type tok \<noteq> Some Illegal"
    using next_token_lexable [OF nt] pre by blast
  have noteof: "tok_type tok \<noteq> Some Eof"
    using nt
  proof (cases rule: next_token_shape)
    case letters
    with letter_token_kind [of "takeWhile isLetter ?p"] show ?thesis by auto
  next
    case digits
    then show ?thesis by simp
  next
    case single
    with cur(1) switch_token_kind [of x tok] x(2) show ?thesis by simp
  next
    case unknown
    then show ?thesis by simp
  qed
  have "\<forall>x \<in> set pre'. lexable x \<and> x \<noteq> NUL"
    using next_token_suffix [OF nt] pre by blast
  moreover have "length pre' < length pre"
    using next_token_shorter [OF nt legal noteof] .
  ultimately show ?thesis using nt ext lastpre' legal noteof by blast
qed

lemma stream_digit_run:
  assumes "\<forall>x \<in> set pre. lexable x \<and> x \<noteq> NUL" and "pre = [] \<or> \<not> isNumber (last pre)"
    and "digits \<noteq> []" and "\<forall>c \<in> set digits. isNumber c"
    and "post = [] \<or> \<not> isNumber (hd post)"
  shows "stream lastTok (pre @ digits @ post) =
           stream lastTok pre
           @ Token (digit_kind (last (lastTok # stream lastTok pre))) digits
           # stream (Token (digit_kind (last (lastTok # stream lastTok pre))) digits) post"
  using assms(1,2)
proof (induction "length pre" arbitrary: pre lastTok rule: less_induct)
  case less
  show ?case
  proof (cases "\<forall>x \<in> set pre. isWhitespace x")
    case True
    have "stream lastTok pre = []"
      by (subst stream.simps) (simp add: next_token_blank [OF True])
    moreover have "stream lastTok (pre @ digits @ post) =
        Token (digit_kind lastTok) digits # stream (Token (digit_kind lastTok) digits) post"
      by (subst stream.simps)
        (simp add: next_token_digits [OF True assms(3,4,5)] digit_kind_def)
    ultimately show ?thesis by simp
  next
    case False
    from assms(3,4) obtain d ds where digits: "digits = d # ds" and d: "isNumber d"
      by (cases digits) auto
    from False less.prems(2) have "\<not> isNumber (last pre)" by auto
    from next_token_append [OF less.prems(1) False this d, of lastTok "ds @ post"]
    obtain tok pre' where nt: "next_token lastTok pre = (tok, pre')"
      and ext: "next_token lastTok (pre @ digits @ post) = (tok, pre' @ digits @ post)"
      and kind: "tok_type tok \<noteq> Some Illegal" "tok_type tok \<noteq> Some Eof"
      and pre': "\<forall>x \<in> set pre'. lexable x \<and> x \<noteq> NUL" "pre' = [] \<or> \<not> isNumber (last pre')"
        "length pre' < length pre"
      using digits by auto
    have a: "stream lastTok pre = tok # stream tok pre'"
      using kind by (subst stream.simps) (simp add: nt)
    have b: "stream lastTok (pre @ digits @ post) = tok # stream tok (pre' @ digits @ post)"
      using kind by (subst stream.simps) (simp add: ext)
    from less.hyps [OF pre'(3) pre'(1,2), of tok] a b show ?thesis by simp
  qed
qed

lemma initial_lastToken: "lastToken (initial inp) = Token Illegal ''Illegal''"
  by (simp add: initial_def createToken_def)

lemma token_stream_initial:
  "token_stream (readChar (initial inp)) = stream (Token Illegal ''Illegal'') inp"
  by (simp add: token_stream_unread cursor_ok_initial initial_lastToken)

text \<open>
  Claim C5, as amended.  Let a run of digits of the input be maximal (no digit stands
  before or after it), and let the loop reach it (every character before it is one the
  tokenizer knows, none the end marker).  Then the tokens the loop receives are those of the text before
  the run, followed by one token whose literal is the run, of kind \<open>Ident\<close> when the token
  before it is a \<open>SingleQuote\<close> or \<open>DoubleQuote\<close> and of kind \<open>Int\<close> otherwise; when
  the constructor returns, that token is among its tokens.  The witness is the input
  \<open>'123'\<close>.
\<close>

theorem digit_run_is_one_token:
  assumes "inp = pre @ digits @ post"
    and "digits \<noteq> []" and "\<forall>c \<in> set digits. isNumber c"
    and "pre = [] \<or> \<not> isNumber (last pre)" and "post = [] \<or> \<not> isNumber (hd post)"
    and "\<forall>x \<in> set pre. lexable x \<and> x \<noteq> NUL"
    and "before = token_stream (readChar (initial pre))"
    and "kind = (if before \<noteq> [] \<and> (tok_type (last before) = Some SingleQuote
                                    \<or> tok_type (last before) = Some DoubleQuote)
                 then Ident else Int')"
  shows "(\<exists>after. token_stream (readChar (initial inp)) = before @ Token kind digits # after)
       \<and> (\<forall>s trailing. constructor inp = Inr (s, trailing) \<longrightarrow> Token kind digits \<in> set (tokens s))"
proof -
  let ?start = "Token Illegal ''Illegal''"
  have before: "before = stream ?start pre"
    using assms(7) by (simp add: token_stream_initial)
  have "digit_kind (last (?start # before)) = kind"
    using assms(8) by (simp add: digit_kind_def)
  with stream_digit_run [OF assms(6,4,2,3,5), of ?start] before assms(1)
  have run: "token_stream (readChar (initial inp))
      = before @ Token kind digits # stream (Token kind digits) post"
    by (simp add: token_stream_initial)
  have "Token kind digits \<in> set (tokens s)" if "constructor inp = Inr (s, trailing)" for s trailing
  proof -
    from that have "lex (readChar (initial inp)) [] = Inr (s, trailing)"
      by (simp add: constructor_def)
    from lex_tokens [OF cursor_ok_initial(1) this]
    have "tokens s = filter (\<lambda>t. tok_type t \<noteq> Some EoL) (token_stream (readChar (initial inp)))"
      by (simp add: initial_def)
    moreover have "tok_type (Token kind digits) \<noteq> Some EoL"
      using assms(8) by simp
    ultimately show ?thesis using run by simp
  qed
  with run show ?thesis by blast
qed

lemmas stream_eval =
  token_stream.simps getNextToken_def skipWhitespace.simps readIdent_loop.simps
  readInt_loop.simps readIdent_def readInt_def slice_def Keywords_def
  object_prototype_members_def readChar_def initial_def NUL_def isWhitespace_def
  isLetter_def isNumber_def switch_token_def createToken_def charCodeAt_def Let_def

theorem digit_run_is_one_token_witness:
  "token_stream (readChar (initial [CHR 0x27, CHR ''1'', CHR ''2'', CHR ''3'', CHR 0x27]))
     = [Token SingleQuote [CHR 0x27], Token Ident ''123'', Token SingleQuote [CHR 0x27]]
   \<and> token_stream (readChar (initial ''x = 42!''))
     = [Token Ident ''x'', Token AssignOrEqual ''='', Token Int' ''42'', Token EoL ''!'']
   \<and> (\<exists>s trailing.
         constructor [CHR 0x27, CHR ''1'', CHR ''2'', CHR ''3'', CHR 0x27] = Inr (s, trailing)
         \<and> Token Ident ''123'' \<in> set (tokens s))"
proof -
  have q: "token_stream (readChar (initial [CHR 0x27])) = [Token SingleQuote [CHR 0x27]]"
    by (simp add: stream_eval)
  have "map_sum id (\<lambda>(s, trailing). tokens s)
          (constructor [CHR 0x27, CHR ''1'', CHR ''2'', CHR ''3'', CHR 0x27])
      = Inr [Token SingleQuote [CHR 0x27], Token Ident ''123'', Token SingleQuote [CHR 0x27]]"
    by (simp add: lexer_eval interpreter_eval)
  then have c: "\<exists>s trailing.
      constructor [CHR 0x27, CHR ''1'', CHR ''2'', CHR ''3'', CHR 0x27] = Inr (s, trailing)"
    by (cases "constructor [CHR 0x27, CHR ''1'', CHR ''2'', CHR ''3'', CHR 0x27]") auto
  have "\<forall>s trailing.
      constructor [CHR 0x27, CHR ''1'', CHR ''2'', CHR ''3'', CHR 0x27] = Inr (s, trailing)
      \<longrightarrow> Token Ident ''123'' \<in> set (tokens s)"
    using digit_run_is_one_token [where inp = "[CHR 0x27, CHR ''1'', CHR ''2'', CHR ''3'', CHR 0x27]"
        and pre = "[CHR 0x27]" and digits = "''123''" and post = "[CHR 0x27]"
        and before = "[Token SingleQuote [CHR 0x27]]" and kind = Ident]
    by (simp add: q lexable_def isNumber_def isLetter_def isWhitespace_def switch_token_def
        charCodeAt_def NUL_def)
  with c have reached: "\<exists>s trailing.
      constructor [CHR 0x27, CHR ''1'', CHR ''2'', CHR ''3'', CHR 0x27] = Inr (s, trailing)
      \<and> Token Ident ''123'' \<in> set (tokens s)"
    by blast
  obtain a where a: "token_stream (readChar (initial [CHR 0x27, CHR ''1'', CHR ''2'', CHR ''3'', CHR 0x27]))
      = [Token SingleQuote [CHR 0x27]] @ Token Ident ''123'' # a"
    using digit_run_is_one_token [where inp = "[CHR 0x27, CHR ''1'', CHR ''2'', CHR ''3'', CHR 0x27]"
        and pre = "[CHR 0x27]" and digits = "''123''" and post = "[CHR 0x27]"
        and before = "[Token SingleQuote [CHR 0x27]]" and kind = Ident]
    by (auto simp: q lexable_def isNumber_def isLetter_def isWhitespace_def switch_token_def
        charCodeAt_def NUL_def)
  have "token_stream (readChar (initial [CHR 0x27, CHR ''1'', CHR ''2'', CHR ''3'', CHR 0x27]))
     = [Token SingleQuote [CHR 0x27], Token Ident ''123'', Token SingleQuote [CHR 0x27]]"
    by (simp add: stream_eval)
  moreover have "token_stream (readChar (initial ''x = 42!''))
     = [Token Ident ''x'', Token AssignOrEqual ''='', Token Int' ''42'', Token EoL ''!'']"
    by (simp add: stream_eval)
  ultimately show ?thesis using a reached by simp
qed

text \<open>
  Against claim C5 as stated: a run of digits that the loop does not reach gives no
  token.  After the character \<open>@\<close> the constructor has thrown, and after an end-marker
  character it has returned, in both cases before it reads the run \<open>123\<close>.
\<close>

theorem digit_run_not_reached_counterexample:
  "constructor ''@ 123'' = Inl (Error ''Illegal token @ at line 0'')
   \<and> token_stream (readChar (initial ''@ 123'')) = []
   \<and> map_sum id (\<lambda>(s, trailing). (tokens s, lines s, trailing))
         (constructor (CHR 0x00 # ''123'')) = Inr ([], [], [])
   \<and> token_stream (readChar (initial (CHR 0x00 # ''123''))) = []"
proof -
  have "constructor ''@ 123'' = Inl (Error ''Illegal token @ at line 0'')"
    by (simp add: lexer_eval interpreter_eval)
  moreover have "token_stream (readChar (initial ''@ 123'')) = []"
    by (simp add: stream_eval)
  moreover have "map_sum id (\<lambda>(s, trailing). (tokens s, lines s, trailing))
         (constructor (CHR 0x00 # ''123'')) = Inr ([], [], [])"
    by (simp add: lexer_eval interpreter_eval)
  moreover have "token_stream (readChar (initial (CHR 0x00 # ''123''))) = []"
    by (simp add: stream_eval)
  ultimately show ?thesis by blast
qed

section \<open>The whole program\<close>

subsection \<open>The texts the interpreter quotes\<close>

text \<open>
  The interpreter puts between quotes the literal of an \<open>Ident\<close> token, the literal of an
  \<open>Int\<close> token or the text \<open>Illegal\<close>.  The tokenizer makes such literals of letters,
  underscores and digits, so that \<open>eval\<close> reads each of them back as it is.
\<close>

definition clean_token :: "Token \<Rightarrow> bool" where
  "clean_token t = (case t of
      Token k lit \<Rightarrow> (k = Ident \<or> k = Int') \<longrightarrow> quotable lit
    | Inherited name \<Rightarrow> True)"

definition clean_vars :: "variables \<Rightarrow> bool" where
  "clean_vars vars = (\<forall>k v. vars k = Some v \<longrightarrow> quotable (template (var_value v)))"

lemma class_quotable:
  "isLetter c \<Longrightarrow> c \<noteq> CHR 0x27 \<and> c \<noteq> CHR 0x5C \<and> c \<noteq> CHR 0x0A \<and> c \<noteq> CHR 0x0D"
  "isNumber c \<Longrightarrow> c \<noteq> CHR 0x27 \<and> c \<noteq> CHR 0x5C \<and> c \<noteq> CHR 0x0A \<and> c \<noteq> CHR 0x0D"
  using isLetter_code [of c] isNumber_code [of c]
  by (auto simp: charCodeAt_def isLetter_def Let_def)

lemma quotable_takeWhile:
  "quotable (takeWhile isLetter r)" "quotable (takeWhile isNumber r)"
  by (auto simp: quotable_def dest!: set_takeWhileD class_quotable)

lemma next_token_clean:
  assumes "next_token lastTok r = (tok, r')"
  shows "clean_token tok"
  using assms
proof (cases rule: next_token_shape)
  case letters
  then show ?thesis
    by (auto simp: clean_token_def Keywords_def createToken_def quotable_takeWhile)
next
  case digits
  then show ?thesis by (simp add: clean_token_def quotable_takeWhile)
next
  case single
  with switch_token_kind [OF single(3)] show ?thesis
    by (cases tok) (auto simp: clean_token_def)
next
  case unknown
  then show ?thesis by (simp add: clean_token_def)
qed

lemma stream_clean: "\<forall>t \<in> set (stream lastTok r). clean_token t"
proof (induction lastTok r rule: stream.induct)
  case (1 lastTok r)
  obtain tok r' where nt: "next_token lastTok r = (tok, r')" by (cases "next_token lastTok r")
  show ?case
  proof (cases "tok_type tok = Some Illegal \<or> tok_type tok = Some Eof")
    case True
    then show ?thesis by (subst stream.simps) (simp add: nt)
  next
    case False
    from "1.IH" [OF nt [symmetric] False] next_token_clean [OF nt] False show ?thesis
      by (subst stream.simps) (simp add: nt)
  qed
qed

lemma constructor_clean:
  assumes "constructor inp = Inr (s, trailing)"
  shows "\<forall>line \<in> set (lines s). \<forall>t \<in> set line. clean_token t"
proof -
  from assms have run: "lex (readChar (initial inp)) [] = Inr (s, trailing)"
    by (simp add: constructor_def)
  from lex_tokens [OF cursor_ok_initial(1) run]
  have "set (tokens s) \<subseteq> set (token_stream (readChar (initial inp)))"
    by (auto simp: initial_def)
  then have "\<forall>t \<in> set (tokens s). clean_token t"
    using stream_clean [of "Token Illegal ''Illegal''" inp] by (auto simp: token_stream_initial)
  moreover have "tokens s = concat (lines s) @ trailing"
    using lex_lines [OF cursor_ok_initial(1) run] by (auto simp: initial_def)
  ultimately show ?thesis by auto
qed

lemma find_token_member:
  "find_token k line i \<in> set (filter (of_kind k) line) \<or> find_token k line i = Token Illegal ''Illegal''"
proof (cases "drop i (filter (of_kind k) line)")
  case Nil
  then show ?thesis
    using last_in_set [of "filter (of_kind k) line"] by (simp add: find_token_filter)
next
  case (Cons t ts)
  then have "t \<in> set (drop i (filter (of_kind k) line))" by simp
  then have "t \<in> set (filter (of_kind k) line)" by (rule in_set_dropD)
  with Cons show ?thesis by (simp add: find_token_filter)
qed

lemma find_token_clean:
  assumes "\<forall>t \<in> set line. clean_token t" and "k = Ident \<or> k = Int'"
  shows "quotable (template (literal (find_token k line i)))"
proof -
  from find_token_member [of k line i] show ?thesis
  proof
    assume "find_token k line i = Token Illegal ''Illegal''"
    then show ?thesis by (simp add: quotable_def)
  next
    assume "find_token k line i \<in> set (filter (of_kind k) line)"
    then have "find_token k line i \<in> set line" "of_kind k (find_token k line i)" by simp_all
    with assms show ?thesis
      by (cases "find_token k line i") (auto simp: clean_token_def of_kind_def)
  qed
qed

lemma stored_clean:
  assumes "\<forall>t \<in> set line. clean_token t"
  shows "quotable (template (var_value (stored line)))"
  using find_token_clean [OF assms, of Ident 1] find_token_clean [OF assms, of "Int'" 0]
  by (simp add: stored_def)

lemma scan_clean:
  assumes "\<forall>t \<in> set line. clean_token t"
  shows "clean_vars vars \<Longrightarrow> list_all readable commands \<Longrightarrow>
         scan line rest vars commands = Inr (vars', commands') \<Longrightarrow>
         clean_vars vars' \<and> list_all readable commands'"
proof (induction rest arbitrary: vars)
  case Nil
  then show ?case by simp
next
  case (Cons atual rest)
  show ?case
  proof (cases "tok_type atual = Some Print")
    case True
    with Cons.prems find_token_clean [OF assms, of Ident 0] show ?thesis
      by (auto simp: scan_Print clean_vars_def simp del: scan.simps split: if_splits option.splits)
  next
    case notPrint: False
    show ?thesis
    proof (cases "tok_type atual = Some Variable")
      case True
      with Cons.prems(3) obtain name where
        run: "scan line rest (vars(literal name \<mapsto> stored line)) commands = Inr (vars', commands')"
        by (auto simp: scan_Variable simp del: scan.simps split: option.splits)
      have "clean_vars (vars(literal name \<mapsto> stored line))"
        using Cons.prems(1) stored_clean [OF assms] by (simp add: clean_vars_def)
      from Cons.IH [OF this Cons.prems(2) run] show ?thesis .
    next
      case False
      with notPrint Cons.prems(3) have "scan line rest vars commands = Inr (vars', commands')"
        by simp
      from Cons.IH [OF Cons.prems(1,2) this] show ?thesis .
    qed
  qed
qed

text \<open>The errors of the dispatch are the two \<open>TypeError\<close>s.\<close>

lemma scan_throws:
  "scan line rest vars commands = Inl e \<Longrightarrow> e = TypeError ''type'' \<or> e = TypeError ''literal''"
proof (induction rest arbitrary: vars)
  case Nil
  then show ?case by simp
next
  case (Cons atual rest)
  show ?case
  proof (cases "tok_type atual = Some Print")
    case True
    with Cons.prems show ?thesis
      by (auto simp: scan_Print simp del: scan.simps split: if_splits option.splits)
  next
    case notPrint: False
    show ?thesis
    proof (cases "tok_type atual = Some Variable")
      case True
      with Cons.prems Cons.IH show ?thesis
        by (auto simp: scan_Variable simp del: scan.simps split: option.splits)
    next
      case False
      with notPrint Cons.prems Cons.IH show ?thesis by simp
    qed
  qed
qed

text \<open>A line with a \<open>Print\<close> token builds one command, any other line none.\<close>

definition has_print :: "Token list \<Rightarrow> bool" where
  "has_print line = (\<exists>t \<in> set line. tok_type t = Some Print)"

lemma scan_commands:
  "scan line rest vars commands = Inr (vars', commands') \<Longrightarrow>
   \<exists>extra. commands' = commands @ extra \<and> length extra = (if has_print rest then 1 else 0)"
proof (induction rest arbitrary: vars)
  case Nil
  then show ?case by (simp add: has_print_def)
next
  case (Cons atual rest)
  show ?case
  proof (cases "tok_type atual = Some Print")
    case True
    with Cons.prems show ?thesis
      by (auto simp: scan_Print has_print_def simp del: scan.simps split: if_splits option.splits)
  next
    case notPrint: False
    show ?thesis
    proof (cases "tok_type atual = Some Variable")
      case True
      with Cons.prems obtain name where
        run: "scan line rest (vars(literal name \<mapsto> stored line)) commands = Inr (vars', commands')"
        by (auto simp: scan_Variable simp del: scan.simps split: option.splits)
      from Cons.IH [OF run] notPrint show ?thesis by (simp add: has_print_def)
    next
      case False
      with notPrint Cons.prems have "scan line rest vars commands = Inr (vars', commands')"
        by simp
      from Cons.IH [OF this] notPrint show ?thesis by (simp add: has_print_def)
    qed
  qed
qed

text \<open>
  The statements of one line, run with the table \<open>vars\<close>: \<open>line_table\<close> is the table
  they leave, \<open>writes\<close> says what they write when none of them throws, \<open>throws\<close> the
  error when one does.  \<open>table_before ls i\<close> is the table that the lines before the
  line \<open>i\<close> of \<open>ls\<close> leave, from the empty table of the interpreter.
\<close>

definition line_table :: "variables \<Rightarrow> Token list \<Rightarrow> variables" where
  "line_table vars line =
     (case scan line line vars [] of Inl e \<Rightarrow> vars | Inr (vars', commands) \<Rightarrow> vars')"

definition table_before :: "Token list list \<Rightarrow> nat \<Rightarrow> variables" where
  "table_before ls i = foldl line_table Map.empty (take i ls)"

definition writes :: "Token list \<Rightarrow> variables \<Rightarrow> logged list \<Rightarrow> bool" where
  "writes line vars out =
     (case scan line line vars [] of
        Inl e \<Rightarrow> False
      | Inr (vars', commands) \<Rightarrow> eval_joined commands = Inr out)"

definition throws :: "Token list \<Rightarrow> variables \<Rightarrow> error \<Rightarrow> bool" where
  "throws line vars e = (scan line line vars [] = Inl e)"

lemma run_lines_steps:
  assumes "\<forall>line \<in> set ls. \<forall>t \<in> set line. clean_token t" and "clean_vars vars"
  shows "\<exists>outs err k. run_lines ls vars = (concat outs, err)
           \<and> k \<le> length ls \<and> length outs = k
           \<and> (\<forall>i < k. writes (ls ! i) (foldl line_table vars (take i ls)) (outs ! i)
                  \<and> length (outs ! i) = (if has_print (ls ! i) then 1 else 0))
           \<and> (if k = length ls then err = None
               else \<exists>e. err = Some e \<and> throws (ls ! k) (foldl line_table vars (take k ls)) e
                      \<and> (e = TypeError ''type'' \<or> e = TypeError ''literal''))"
  using assms
proof (induction ls arbitrary: vars)
  case Nil
  then show ?case by simp
next
  case (Cons line ls)
  show ?case
  proof (cases "scan line line vars []")
    case (Inl e)
    then have "run_lines (line # ls) vars = ([], Some e)" by simp
    moreover have "e = TypeError ''type'' \<or> e = TypeError ''literal''"
      using Inl by (rule scan_throws)
    moreover have "throws line vars e" using Inl by (simp add: throws_def)
    ultimately show ?thesis
      by (intro exI [of _ "[]"] exI [of _ "Some e"] exI [of _ 0]) simp
  next
    case (Inr result)
    obtain vars' commands where result: "result = (vars', commands)" by (cases result)
    with Inr have run: "scan line line vars [] = Inr (vars', commands)" by simp
    have clean: "\<forall>t \<in> set line. clean_token t" using Cons.prems(1) by simp
    from scan_clean [OF clean Cons.prems(2) _ run]
    have vars': "clean_vars vars'" and readable: "list_all readable commands" by simp_all
    from readable have ev: "eval_joined commands = Inr (map run_command commands)"
      by (simp add: eval_joined_def)
    from scan_commands [OF run]
    have count: "length commands = (if has_print line then 1 else 0)" by auto
    have table: "line_table vars line = vars'" using run by (simp add: line_table_def)
    have here: "writes line vars (map run_command commands)"
      using run ev by (simp add: writes_def)
    from Cons.IH [OF _ vars'] Cons.prems(1)
    obtain outs err k where IH: "run_lines ls vars' = (concat outs, err)" "k \<le> length ls"
      "length outs = k"
      "\<forall>i < k. writes (ls ! i) (foldl line_table vars' (take i ls)) (outs ! i)
          \<and> length (outs ! i) = (if has_print (ls ! i) then 1 else 0)"
      "if k = length ls then err = None
       else \<exists>e. err = Some e \<and> throws (ls ! k) (foldl line_table vars' (take k ls)) e
              \<and> (e = TypeError ''type'' \<or> e = TypeError ''literal'')"
      by auto
    let ?outs = "map run_command commands # outs"
    have whole: "run_lines (line # ls) vars = (concat ?outs, err)"
      using run ev IH(1) by simp
    have each: "writes ((line # ls) ! i) (foldl line_table vars (take i (line # ls))) (?outs ! i)
        \<and> length (?outs ! i) = (if has_print ((line # ls) ! i) then 1 else 0)"
      if "i < Suc k" for i
    proof (cases i)
      case 0
      with here count show ?thesis by simp
    next
      case (Suc j)
      with that have "j < k" by simp
      with IH(4) Suc table show ?thesis by simp
    qed
    have last: "if Suc k = length (line # ls) then err = None
       else \<exists>e. err = Some e
              \<and> throws ((line # ls) ! Suc k) (foldl line_table vars (take (Suc k) (line # ls))) e
              \<and> (e = TypeError ''type'' \<or> e = TypeError ''literal'')"
      using IH(5) table by simp
    show ?thesis
      using whole IH(2,3) each last
      by (intro exI [of _ ?outs] exI [of _ err] exI [of _ "Suc k"]) simp
  qed
qed

text \<open>
  Claim C1, as amended.  For a script that lexes without an illegal token, standard
  output holds the text \<open>lines\<close>, the dump of the lines of the tokenizer, and then what
  the lines write, line after line in the order of the lines, and nothing else.  The
  lines run are the first \<open>k\<close>: all of them when the run ends without an error, and
  otherwise the lines before the first one whose statement throws, which is the line
  \<open>k\<close>; the error is a \<open>TypeError\<close>.  Each of these lines writes what its statements
  write with the table the lines before it have left: one entry when the line holds a
  \<open>Print\<close> token, and nothing when it holds none.
\<close>

theorem program_output:
  assumes "new_Tokenizer inp = Inr lexer" and "ls = lines lexer"
  shows "\<exists>outs err k.
           program inp = (Str ''lines'' # Inspect ls # concat outs, err)
         \<and> k \<le> length ls \<and> length outs = k
         \<and> (\<forall>i < k. writes (ls ! i) (table_before ls i) (outs ! i)
                \<and> length (outs ! i) = (if has_print (ls ! i) then 1 else 0))
         \<and> (if k = length ls then err = None
             else \<exists>e. err = Some e \<and> throws (ls ! k) (table_before ls k) e
                    \<and> (e = TypeError ''type'' \<or> e = TypeError ''literal''))"
proof -
  from assms obtain trailing where "constructor inp = Inr (lexer, trailing)"
    by (cases "constructor inp") (auto simp: new_Tokenizer_def)
  then have "\<forall>line \<in> set ls. \<forall>t \<in> set line. clean_token t"
    using constructor_clean assms(2) by blast
  moreover have "clean_vars Map.empty" by (simp add: clean_vars_def)
  ultimately obtain outs err k where run: "run_lines ls Map.empty = (concat outs, err)"
    "k \<le> length ls" "length outs = k"
    "\<forall>i < k. writes (ls ! i) (foldl line_table Map.empty (take i ls)) (outs ! i)
        \<and> length (outs ! i) = (if has_print (ls ! i) then 1 else 0)"
    "if k = length ls then err = None
     else \<exists>e. err = Some e \<and> throws (ls ! k) (foldl line_table Map.empty (take k ls)) e
            \<and> (e = TypeError ''type'' \<or> e = TypeError ''literal'')"
    using run_lines_steps [of ls Map.empty] by blast
  have "program inp = (Str ''lines'' # Inspect ls # concat outs, err)"
    using assms run(1) by (simp add: program_def interpreter_def)
  with run(2-5) show ?thesis
    unfolding table_before_def
    by (intro exI [of _ outs] exI [of _ err] exI [of _ k]) simp
qed


theorem program_output_witness:
  "(\<exists>lexer. new_Tokenizer ''var x = 12! print(x)! y! print(hi)!'' = Inr lexer
     \<and> lines lexer
         = [[Token Variable ''var'', Token Ident ''x'', Token AssignOrEqual ''='', Token Int' ''12''],
            [Token Print ''print'', Token ParentesesE ''('', Token Ident ''x'', Token ParentesesD '')''],
            [Token Ident ''y''],
            [Token Print ''print'', Token ParentesesE ''('', Token Ident ''hi'', Token ParentesesD '')'']]
     \<and> program ''var x = 12! print(x)! y! print(hi)!''
         = ([Str ''lines'', Inspect (lines lexer), Number (Num 12), Str ''hi''], None)
     \<and> writes [Token Print ''print'', Token ParentesesE ''('', Token Ident ''x'', Token ParentesesD '')'']
          (table_before (lines lexer) 1) [Number (Num 12)]
     \<and> writes [Token Ident ''y''] (table_before (lines lexer) 2) []
     \<and> writes [Token Print ''print'', Token ParentesesE ''('', Token Ident ''hi'', Token ParentesesD '')'']
          (table_before (lines lexer) 3) [Str ''hi''])
   \<and> (\<exists>lexer. new_Tokenizer ''print(a)! print(b)! var! print(c)!'' = Inr lexer
     \<and> program ''print(a)! print(b)! var! print(c)!''
         = ([Str ''lines'', Inspect (lines lexer), Str ''a'', Str ''b''], Some (TypeError ''literal''))
     \<and> throws [Token Variable ''var''] (table_before (lines lexer) 2) (TypeError ''literal''))"
proof -
  have first: "\<exists>lexer. new_Tokenizer ''var x = 12! print(x)! y! print(hi)!'' = Inr lexer
     \<and> lines lexer
         = [[Token Variable ''var'', Token Ident ''x'', Token AssignOrEqual ''='', Token Int' ''12''],
            [Token Print ''print'', Token ParentesesE ''('', Token Ident ''x'', Token ParentesesD '')''],
            [Token Ident ''y''],
            [Token Print ''print'', Token ParentesesE ''('', Token Ident ''hi'', Token ParentesesD '')'']]
     \<and> program ''var x = 12! print(x)! y! print(hi)!''
         = ([Str ''lines'', Inspect (lines lexer), Number (Num 12), Str ''hi''], None)
     \<and> writes [Token Print ''print'', Token ParentesesE ''('', Token Ident ''x'', Token ParentesesD '')'']
          (table_before (lines lexer) 1) [Number (Num 12)]
     \<and> writes [Token Ident ''y''] (table_before (lines lexer) 2) []
     \<and> writes [Token Print ''print'', Token ParentesesE ''('', Token Ident ''hi'', Token ParentesesD '')'']
          (table_before (lines lexer) 3) [Str ''hi'']"
  proof -
    let ?inp = "''var x = 12! print(x)! y! print(hi)!''"
    let ?lines = "[[Token Variable ''var'', Token Ident ''x'', Token AssignOrEqual ''='', Token Int' ''12''],
       [Token Print ''print'', Token ParentesesE ''('', Token Ident ''x'', Token ParentesesD '')''],
       [Token Ident ''y''],
       [Token Print ''print'', Token ParentesesE ''('', Token Ident ''hi'', Token ParentesesD '')'']]"
    have ev: "map_sum id lines (new_Tokenizer ?inp) = Inr ?lines"
      by (simp add: lexer_eval interpreter_eval)
    then obtain lexer where lexer: "new_Tokenizer ?inp = Inr lexer" and ls: "lines lexer = ?lines"
      by (cases "new_Tokenizer ?inp") auto
    have run: "run_lines ?lines Map.empty = ([Number (Num 12), Str ''hi''], None)"
      by (simp add: interpreter_eval)
    with lexer ls have prog: "program ?inp
        = ([Str ''lines'', Inspect (lines lexer), Number (Num 12), Str ''hi''], None)"
      by (simp add: program_def interpreter_def del: run_lines.simps)
    from program_output [OF lexer ls [symmetric]] prog ls
    obtain outs k where outs: "concat outs = [Number (Num 12), Str ''hi'']"
      "length outs = k" "k \<le> 4"
      and each: "\<forall>i < k. writes (?lines ! i) (table_before ?lines i) (outs ! i)
          \<and> length (outs ! i) = (if has_print (?lines ! i) then 1 else 0)"
      and last: "if k = 4 then True else False"
      by (auto split: if_splits)
    from last have k: "k = 4" by (simp split: if_splits)
    with outs(2) obtain o0 o1 o2 o3 where os: "outs = [o0, o1, o2, o3]"
      by (auto simp: numeral_eq_Suc length_Suc_conv)
    from each k have each4: "\<forall>i < 4. writes (?lines ! i) (table_before ?lines i) (outs ! i)
          \<and> length (outs ! i) = (if has_print (?lines ! i) then 1 else 0)"
      by simp
    from each4 [rule_format, of 0] os
    have l0: "length o0 = (if has_print (?lines ! 0) then 1 else 0)" by simp
    from each4 [rule_format, of 1] os
    have w1: "writes (?lines ! 1) (table_before ?lines 1) o1"
      and l1: "length o1 = (if has_print (?lines ! 1) then 1 else 0)" by simp_all
    from each4 [rule_format, of 2] os
    have w2: "writes (?lines ! 2) (table_before ?lines 2) o2"
      and l2: "length o2 = (if has_print (?lines ! 2) then 1 else 0)" by simp_all
    from each4 [rule_format, of 3] os
    have w3: "writes (?lines ! 3) (table_before ?lines 3) o3"
      and l3: "length o3 = (if has_print (?lines ! 3) then 1 else 0)" by simp_all
    from l0 l2 have e: "o0 = []" "o2 = []" by (simp_all add: has_print_def)
    from l1 l3 obtain a b where ab: "o1 = [a]" "o3 = [b]"
      by (auto simp: has_print_def length_Suc_conv)
    with outs(1) os e have "a = Number (Num 12)" "b = Str ''hi''" by simp_all
    with w1 w2 w3 e ab lexer prog ls show ?thesis by simp
  qed
  have second: "\<exists>lexer. new_Tokenizer ''print(a)! print(b)! var! print(c)!'' = Inr lexer
     \<and> program ''print(a)! print(b)! var! print(c)!''
         = ([Str ''lines'', Inspect (lines lexer), Str ''a'', Str ''b''], Some (TypeError ''literal''))
     \<and> throws [Token Variable ''var''] (table_before (lines lexer) 2) (TypeError ''literal'')"
  proof -
    let ?inp = "''print(a)! print(b)! var! print(c)!''"
    let ?lines = "[[Token Print ''print'', Token ParentesesE ''('', Token Ident ''a'', Token ParentesesD '')''],
       [Token Print ''print'', Token ParentesesE ''('', Token Ident ''b'', Token ParentesesD '')''],
       [Token Variable ''var''],
       [Token Print ''print'', Token ParentesesE ''('', Token Ident ''c'', Token ParentesesD '')'']]"
    have ev: "map_sum id lines (new_Tokenizer ?inp) = Inr ?lines"
      by (simp add: lexer_eval interpreter_eval)
    then obtain lexer where lexer: "new_Tokenizer ?inp = Inr lexer" and ls: "lines lexer = ?lines"
      by (cases "new_Tokenizer ?inp") auto
    have run: "run_lines ?lines Map.empty = ([Str ''a'', Str ''b''], Some (TypeError ''literal''))"
      by (simp add: interpreter_eval)
    with lexer ls have prog: "program ?inp
        = ([Str ''lines'', Inspect (lines lexer), Str ''a'', Str ''b''], Some (TypeError ''literal''))"
      by (simp add: program_def interpreter_def del: run_lines.simps)
    from program_output [OF lexer refl]
    obtain outs err k where po:
      "program ?inp = (Str ''lines'' # Inspect (lines lexer) # concat outs, err)"
      "k \<le> length (lines lexer)" "length outs = k"
      "\<forall>i < k. writes (lines lexer ! i) (table_before (lines lexer) i) (outs ! i)
          \<and> length (outs ! i) = (if has_print (lines lexer ! i) then 1 else 0)"
      "if k = length (lines lexer) then err = None
       else \<exists>e. err = Some e \<and> throws (lines lexer ! k) (table_before (lines lexer) k) e
              \<and> (e = TypeError ''type'' \<or> e = TypeError ''literal'')"
      by blast
    from po(1) prog have outs1: "concat outs = [Str ''a'', Str ''b'']"
      and err: "err = Some (TypeError ''literal'')" by simp_all
    note outs = outs1 po(3)
    from po(2,5) err ls have k4: "k < 4"
      and last: "throws (?lines ! k) (table_before ?lines k) (TypeError ''literal'')"
      by (auto split: if_splits)
    from po(4) ls
    have each: "\<forall>i < k. length (outs ! i) = (if has_print (?lines ! i) then 1 else 0)"
      by simp
    have "k = 2"
    proof (rule ccontr)
      assume "k \<noteq> 2"
      with k4 consider "k = 0" | "k = 1" | "k = 3" by linarith
      then show False
      proof cases
        case 1
        with outs(1,2) show False by simp
      next
        case 2
        with outs(2) obtain o0 where "outs = [o0]" by (auto simp: length_Suc_conv)
        with each 2 outs(1) show False by (simp add: has_print_def)
      next
        case 3
        with outs(2) obtain o0 o1 o2 where os: "outs = [o0, o1, o2]"
          by (auto simp: numeral_eq_Suc length_Suc_conv)
        from each 3 have each3: "\<forall>i < 3. length (outs ! i) = (if has_print (?lines ! i) then 1 else 0)"
          by simp
        from each3 [rule_format, of 0] each3 [rule_format, of 1] each3 [rule_format, of 2] os
        have "length o0 = 1" "length o1 = 1" "length o2 = 0" by (simp_all add: has_print_def)
        moreover from last 3 have "throws (?lines ! 3) (table_before ?lines 3) (TypeError ''literal'')"
          by simp
        then have False
          by (simp add: throws_def table_before_def line_table_def interpreter_eval numeral_eq_Suc)
        ultimately show False by simp
      qed
    qed
    with last have "throws [Token Variable ''var''] (table_before ?lines 2) (TypeError ''literal'')"
      by simp
    with lexer prog ls show ?thesis by simp
  qed
  from first second show ?thesis by (rule conjI)
qed

text \<open>
  Against claim C1 as stated: the script \<open>print(a)!\<close> has one print statement;
  standard output holds three entries, the first two written before the interpreter runs.
\<close>

theorem debug_output_counterexample:
  "program ''print(a)!''
     = ([Str ''lines'',
         Inspect [[Token Print ''print'', Token ParentesesE ''('', Token Ident ''a'',
                   Token ParentesesD '')'']],
         Str ''a''], None)"
  by (simp add: lexer_eval interpreter_eval)

end
